theory Spec2Isabelle
  imports Complex_Main "HOL-Library.Multiset" "HOL-Library.AList" "HOL-Library.Char_ord" "HOL-Library.List_Lexorder"
begin

section \<open>Strings\<close>

text \<open>
  Python strings are sequences of code points. A \<^typ>\<open>char\<close> is read here as one
  code point in the range U+0000..U+00FF; code points beyond that range are outside
  the model. On this range \<open>str.isspace\<close>, which decides what \<open>str.strip()\<close> removes and
  what the pattern \<open>\s\<close> matches, holds of U+0009..U+000D, U+001C..U+0020, U+0085 and
  U+00A0; \<open>\d\<close> matches the ten ASCII digits only; \<open>[A-Z]\<close> is the ASCII capitals.
\<close>

definition isspace :: "char \<Rightarrow> bool" where
  "isspace c = (let n = (of_char c :: nat)
                in (9 \<le> n \<and> n \<le> 13) \<or> (28 \<le> n \<and> n \<le> 32) \<or> n = 133 \<or> n = 160)"

definition isdigit :: "char \<Rightarrow> bool" where
  "isdigit c = (let n = (of_char c :: nat) in 48 \<le> n \<and> n \<le> 57)"

definition isupper_az :: "char \<Rightarrow> bool" where
  "isupper_az c = (let n = (of_char c :: nat) in 65 \<le> n \<and> n \<le> 90)"

text \<open>\<open>str.lower()\<close> on U+0000..U+00FF: \<open>A\<close>..\<open>Z\<close> and the capitals U+00C0..U+00DE
  (without the multiplication sign U+00D7) move up by 32.\<close>

definition lower_char :: "char \<Rightarrow> char" where
  "lower_char c = (let n = (of_char c :: nat)
                   in if (65 \<le> n \<and> n \<le> 90) \<or> (192 \<le> n \<and> n \<le> 222 \<and> n \<noteq> 215)
                      then char_of (n + 32) else c)"

definition lower :: "string \<Rightarrow> string" where
  "lower s = map lower_char s"

text \<open>\<open>s.strip()\<close>: leading and trailing whitespace removed.\<close>

definition strip :: "string \<Rightarrow> string" where
  "strip s = rev (dropWhile isspace (rev (dropWhile isspace s)))"

section \<open>Merchant normalizer\<close>

datatype error = IndexError | KeyError | ValueError | TypeError | AttributeError

text \<open>
  \<open>re.split(r'\s{2,}', desc)\<close>: the pieces of \<open>desc\<close> between the maximal runs of two or
  more whitespace characters. The first argument collects the current piece, reversed.
\<close>

function re_split_ws2 :: "string \<Rightarrow> string \<Rightarrow> string list" where
  "re_split_ws2 acc [] = [rev acc]"
| "re_split_ws2 acc [a] = [rev (a # acc)]"
| "re_split_ws2 acc (a # b # cs) =
     (if isspace a \<and> isspace b then rev acc # re_split_ws2 [] (dropWhile isspace cs)
      else re_split_ws2 (a # acc) (b # cs))"
  by pat_completeness auto
termination
  by (relation "measure (\<lambda>(acc, s). length s)")
     (auto simp: le_imp_less_Suc length_dropWhile_le less_Suc_eq_le le_SucI)

text \<open>
  A match of \<open>\s+TOKEN\<close> that ends exactly at the end of \<open>s\<close>, where \<open>TOKEN\<close> is a run
  of characters satisfying \<open>tokp\<close> whose length satisfies \<open>lenok\<close>. The regex engine
  reports the leftmost match, so the whole whitespace run before the token belongs to
  it. The result is what is left of \<open>s\<close> in front of the match.
\<close>

definition match_at_end :: "(char \<Rightarrow> bool) \<Rightarrow> (nat \<Rightarrow> bool) \<Rightarrow> string \<Rightarrow> string option" where
  "match_at_end tokp lenok s =
     (let r = rev s; tok = takeWhile tokp r; rest = dropWhile tokp r
      in if lenok (length tok) \<and> takeWhile isspace rest \<noteq> []
         then Some (rev (dropWhile isspace rest)) else None)"

text \<open>
  \<open>re.sub(r'\s+TOKEN$', '', s)\<close>. Without the MULTILINE flag \<open>$\<close> matches at the end of
  the string and also just before a newline that is the last character; in the second
  case the newline stays.
\<close>

definition re_sub_trailing :: "(char \<Rightarrow> bool) \<Rightarrow> (nat \<Rightarrow> bool) \<Rightarrow> string \<Rightarrow> string" where
  "re_sub_trailing tokp lenok s =
     (if s \<noteq> [] \<and> last s = CHR 0x0A
      then (case match_at_end tokp lenok (butlast s) of
              Some p \<Rightarrow> p @ [CHR 0x0A] | None \<Rightarrow> s)
      else (case match_at_end tokp lenok s of Some p \<Rightarrow> p | None \<Rightarrow> s))"

definition extract_merchant_name :: "string \<Rightarrow> error + string" where
  "extract_merchant_name description =
     (let desc = strip description
      in case re_split_ws2 [] desc of
           [] \<Rightarrow> Inl IndexError
         | desc # _ \<Rightarrow>
             (let desc = re_sub_trailing isdigit (\<lambda>n. 1 \<le> n) desc;
                  desc = re_sub_trailing isupper_az (\<lambda>n. 2 \<le> n \<and> n \<le> 3) desc
              in Inr (strip desc)))"

text \<open>The cache key used by every caller: \<open>extract_merchant_name(d).lower()\<close>.\<close>

definition merchant_key :: "string \<Rightarrow> error + string" where
  "merchant_key description =
     (case extract_merchant_name description of
        Inl e \<Rightarrow> Inl e | Inr merchant \<Rightarrow> Inr (lower merchant))"

subsection \<open>The normalizer as the specification words it\<close>

text \<open>
  The four steps of the specification, written without reference to regular
  expressions. A \<^emph>\<open>token\<close> is a maximal run of non-whitespace characters.
  Step 2 cuts at the first index where two whitespace characters stand side by side;
  steps 3 and 4 look at the last token, which is trailing when something precedes it.
\<close>

definition trim_spec :: "string \<Rightarrow> string" where
  "trim_spec s = rev (dropWhile isspace (rev (dropWhile isspace s)))"

definition truncate_spec :: "string \<Rightarrow> string" where
  "truncate_spec s =
     (case find (\<lambda>i. isspace (s ! i) \<and> isspace (s ! Suc i)) [0 ..< length s - 1] of
        None \<Rightarrow> s
      | Some i \<Rightarrow> take i s)"

definition last_token :: "string \<Rightarrow> string" where
  "last_token s = rev (takeWhile (\<lambda>c. \<not> isspace c) (rev s))"

definition before_last_token :: "string \<Rightarrow> string" where
  "before_last_token s =
     rev (dropWhile isspace (dropWhile (\<lambda>c. \<not> isspace c) (rev s)))"

definition strip_trailing_token :: "(string \<Rightarrow> bool) \<Rightarrow> string \<Rightarrow> string" where
  "strip_trailing_token is_tok s =
     (if is_tok (last_token s) \<and> length (last_token s) < length s
      then before_last_token s else s)"

definition numeric_token :: "string \<Rightarrow> bool" where
  "numeric_token tok = (tok \<noteq> [] \<and> list_all isdigit tok)"

definition upper23_token :: "string \<Rightarrow> bool" where
  "upper23_token tok = ((length tok = 2 \<or> length tok = 3) \<and> list_all isupper_az tok)"

definition normalize_spec :: "string \<Rightarrow> string" where
  "normalize_spec d =
     strip_trailing_token upper23_token
       (strip_trailing_token numeric_token (truncate_spec (trim_spec d)))"

text \<open>A string with no whitespace at either end.\<close>

definition trimmed :: "string \<Rightarrow> bool" where
  "trimmed s = (s = [] \<or> (\<not> isspace (hd s) \<and> \<not> isspace (last s)))"

section \<open>Values, records and the runtime\<close>

text \<open>
  Values that arrive as JSON (request bodies, the classifier's answer) are dynamically
  typed in the source. Numbers are represented by their exact value. An object is the
  list of its members in document order; when a name is repeated the last member wins.
\<close>

datatype json =
    JNull
  | JBool bool
  | JNum rat
  | JStr string
  | JArr "json list"
  | JObj "(string \<times> json) list"

text \<open>Python truth value of a value.\<close>

fun truthy :: "json \<Rightarrow> bool" where
  "truthy JNull = False"
| "truthy (JBool b) = b"
| "truthy (JNum r) = (r \<noteq> 0)"
| "truthy (JStr s) = (s \<noteq> [])"
| "truthy (JArr xs) = (xs \<noteq> [])"
| "truthy (JObj kv) = (kv \<noteq> [])"

text \<open>Truth value of \<open>d.get(k)\<close>, where \<open>None\<close> stands for a missing key.\<close>

definition get_truthy :: "json option \<Rightarrow> bool" where
  "get_truthy v = (case v of None \<Rightarrow> False | Some x \<Rightarrow> truthy x)"

text \<open>\<open>data.get(k)\<close> on a decoded JSON object.\<close>

definition obj_get :: "(string \<times> json) list \<Rightarrow> string \<Rightarrow> json option" where
  "obj_get kv k = map_of (rev kv) k"

text \<open>
  A transaction dictionary. \<open>id\<close>, \<open>date\<close>, \<open>amount\<close> and \<open>description\<close> are written
  once by \<open>upload_csv\<close> and never changed; the other keys receive request or classifier
  values and may be missing (\<open>None\<close>). The amount is a finite double, represented by its
  exact rational value, so that comparison and \<open>abs\<close> are exact. The keys \<open>id\<close> and \<open>note\<close>
  are the fields \<open>id'\<close> and \<open>note'\<close>.
\<close>

record transaction =
  id' :: string
  date :: string
  amount :: rat
  description :: string
  category_code :: "json option"
  reconciled :: "json option"
  ai_suggested_code :: "json option"
  ai_confidence :: "json option"
  ai_from_cache :: "json option"
  note' :: "json option"

text \<open>A category (\<open>code\<close>, \<open>name\<close>, \<open>type\<close>, \<open>category_type\<close>).\<close>

record category =
  c_code :: string
  c_name :: string
  c_type :: string
  c_category_type :: string

text \<open>
  An entry of the merchant cache (\<open>category_code\<close>, \<open>confidence\<close>, \<open>learned_from\<close>) and
  the cache itself, a dictionary in insertion order. \<open>AList.update\<close> is Python's
  \<open>d[k] = v\<close>: an existing key keeps its place, a new key goes to the end.
\<close>

record cache_entry =
  m_category_code :: json
  m_confidence :: string
  m_learned_from :: string

type_synonym merchant_cache = "(string \<times> cache_entry) list"

text \<open>
  The persisted state: the contents of \<open>TRANSACTIONS_FILE\<close> and of
  \<open>MERCHANT_CACHE_FILE\<close>. \<open>load_json\<close> reads a field, \<open>save_json\<close> replaces it.
\<close>

record store =
  transactions_file :: "transaction list"
  merchant_cache_file :: merchant_cache

text \<open>
  Library functions of the running interpreter that the source calls and whose code is
  not part of the repository. \<open>py_hash\<close> is the builtin \<open>hash\<close> on strings, which
  CPython salts per process; \<open>py_float\<close> is \<open>float(s)\<close> (\<open>None\<close> for a
  \<open>ValueError\<close>); \<open>py_str_float\<close> formats a float inside an f-string;
  \<open>strptime_dmy\<close> is \<open>datetime.strptime(s, '%d/%m/%Y').strftime('%Y-%m-%d')\<close>
  (\<open>None\<close> for a \<open>ValueError\<close>); \<open>float_add\<close> is the addition of doubles;
  \<open>round2\<close> is \<open>round(x, 2)\<close>; \<open>json_loads\<close> is \<open>json.loads\<close> (\<open>None\<close> when
  it raises).
\<close>

record runtime =
  py_hash :: "string \<Rightarrow> int"
  py_float :: "string \<Rightarrow> rat option"
  py_str_float :: "rat \<Rightarrow> string"
  strptime_dmy :: "string \<Rightarrow> string option"
  float_add :: "rat \<Rightarrow> rat \<Rightarrow> rat"
  round2 :: "rat \<Rightarrow> rat"
  json_loads :: "string \<Rightarrow> json option"

text \<open>
  The request sent to the external classifier: the values interpolated into the prompt
  (one triple per category; ordinal, date, description, absolute amount and
  \<open>expense\<close>/\<open>income\<close> per transaction). The fixed text around them is left out. The
  classifier itself is a parameter of type \<open>request \<Rightarrow> string option\<close>: the
  text of the first content block of the response, or \<open>None\<close> when the call or the access to the
  response raises.
\<close>

record request =
  category_list :: "(string \<times> string \<times> string) list"
  transaction_list :: "(nat \<times> string \<times> string \<times> rat \<times> string) list"

section \<open>Batch categorization\<close>

text \<open>The three \<open>ai_*\<close> assignments of a cache hit and of the fallback.\<close>

definition tag_cached :: "cache_entry \<Rightarrow> transaction \<Rightarrow> transaction" where
  "tag_cached cached t =
     t\<lparr>ai_suggested_code := Some (m_category_code cached),
       ai_confidence := Some (JStr ''high''),
       ai_from_cache := Some (JBool True)\<rparr>"

definition tag_fallback :: "transaction \<Rightarrow> transaction" where
  "tag_fallback t =
     t\<lparr>ai_suggested_code := Some (JStr ''500''),
       ai_confidence := Some (JStr ''low''),
       ai_from_cache := Some (JBool False)\<rparr>"

text \<open>
  The first loop. \<open>uncached_transactions\<close> holds references to dictionaries of
  \<open>transactions\<close>; it is represented by the list of their positions, so that a later
  assignment through \<open>uncached_transactions[i]\<close> is an update of \<open>transactions\<close> at
  that position. The second argument is the position of the head of the list.
\<close>

fun partition_cached ::
  "merchant_cache \<Rightarrow> nat \<Rightarrow> transaction list \<Rightarrow> error + (transaction list \<times> nat list)" where
  "partition_cached mc i [] = Inr ([], [])"
| "partition_cached mc i (t # ts) =
     (case merchant_key (description t) of
        Inl e \<Rightarrow> Inl e
      | Inr k \<Rightarrow>
          (case partition_cached mc (Suc i) ts of
             Inl e \<Rightarrow> Inl e
           | Inr (ts', uncached) \<Rightarrow>
               (case map_of mc k of
                  Some cached \<Rightarrow> Inr (tag_cached cached t # ts', uncached)
                | None \<Rightarrow> Inr (t # ts', i # uncached))))"

definition build_request :: "category list \<Rightarrow> transaction list \<Rightarrow> request" where
  "build_request categories uncached_transactions =
     \<lparr>category_list = map (\<lambda>c. (c_code c, c_name c, c_category_type c)) categories,
      transaction_list =
        map (\<lambda>(i, t). (i + 1, date t, description t, \<bar>amount t\<bar>,
                         if amount t < 0 then ''expense'' else ''income''))
            (enumerate 0 uncached_transactions)\<rparr>"

text \<open>
  The \<open>re.search\<close> of the response text for an opening bracket, any characters
  (greedy) and a closing bracket: from the first opening bracket to the last
  closing bracket after it, if there is one.
\<close>

definition search_json_array :: "string \<Rightarrow> string option" where
  "search_json_array s =
     (let from = dropWhile (\<lambda>c. c \<noteq> CHR ''['') s
      in if from = [] then None
         else let body = rev (dropWhile (\<lambda>c. c \<noteq> CHR '']'') (rev (tl from)))
              in if body = [] then None else Some (CHR ''['' # body))"

text \<open>
  What a \<open>for\<close> loop iterates over in a decoded value: the elements of a list, the
  keys of a dictionary, the characters of a string; other values are not iterable.
\<close>

fun first_occurrences :: "'a list \<Rightarrow> 'a list" where
  "first_occurrences [] = []"
| "first_occurrences (x # xs) = x # filter (\<lambda>y. y \<noteq> x) (first_occurrences xs)"

fun py_iter :: "json \<Rightarrow> error + json list" where
  "py_iter (JArr xs) = Inr xs"
| "py_iter (JObj kv) = Inr (map JStr (first_occurrences (map fst kv)))"
| "py_iter (JStr s) = Inr (map (\<lambda>c. JStr [c]) s)"
| "py_iter v = Inl TypeError"

text \<open>\<open>result.get(key, default)\<close>; only a dictionary has \<open>get\<close>.\<close>

fun entry_get :: "json \<Rightarrow> string \<Rightarrow> json \<Rightarrow> error + json" where
  "entry_get (JObj kv) k d = Inr (case obj_get kv k of None \<Rightarrow> d | Some v \<Rightarrow> v)"
| "entry_get v k d = Inl AttributeError"

text \<open>
  The loop over \<open>enumerate(results)\<close>. It returns the transactions as far as they were
  assigned, and the exception that stopped it, if any.
\<close>

fun apply_results ::
  "nat list \<Rightarrow> nat \<Rightarrow> json list \<Rightarrow> transaction list \<Rightarrow> error option \<times> transaction list" where
  "apply_results uncached i [] ts = (None, ts)"
| "apply_results uncached i (result # results) ts =
     (if i < length uncached then
        (case entry_get result ''category_code'' (JStr ''500'') of
           Inl e \<Rightarrow> (Some e, ts)
         | Inr code \<Rightarrow>
             (let j = uncached ! i;
                  ts = ts[j := (ts ! j)\<lparr>ai_suggested_code := Some code\<rparr>]
              in case entry_get result ''confidence'' (JStr ''low'') of
                   Inl e \<Rightarrow> (Some e, ts)
                 | Inr conf \<Rightarrow>
                     apply_results uncached (Suc i) results
                       (ts[j := (ts ! j)\<lparr>ai_confidence := Some conf,
                                          ai_from_cache := Some (JBool False)\<rparr>])))
      else apply_results uncached (Suc i) results ts)"

text \<open>The loop of the \<open>except\<close> branch.\<close>

definition fallback_all :: "nat list \<Rightarrow> transaction list \<Rightarrow> transaction list" where
  "fallback_all uncached ts = foldl (\<lambda>ts j. ts[j := tag_fallback (ts ! j)]) ts uncached"

text \<open>The \<open>try\<close> statement: the call, the parsing, the assignments, the fallback.\<close>

definition classify ::
  "runtime \<Rightarrow> (request \<Rightarrow> string option) \<Rightarrow> request \<Rightarrow> nat list \<Rightarrow> transaction list
   \<Rightarrow> transaction list" where
  "classify rt client req uncached ts =
     (case client req of
        None \<Rightarrow> fallback_all uncached ts
      | Some response_text \<Rightarrow>
          (case search_json_array (strip response_text) of
             None \<Rightarrow> ts
           | Some json_match \<Rightarrow>
               (case json_loads rt json_match of
                  None \<Rightarrow> fallback_all uncached ts
                | Some results \<Rightarrow>
                    (case py_iter results of
                       Inl e \<Rightarrow> fallback_all uncached ts
                     | Inr rs \<Rightarrow>
                         (case apply_results uncached 0 rs ts of
                            (Some e, ts') \<Rightarrow> fallback_all uncached ts'
                          | (None, ts') \<Rightarrow> ts')))))"

text \<open>
  The function returns the requests it sent to the classifier (none or one) together
  with the batch; \<open>Inl\<close> is an exception that leaves the function.
\<close>

definition categorize_transactions_batch ::
  "runtime \<Rightarrow> (request \<Rightarrow> string option) \<Rightarrow> merchant_cache \<Rightarrow> transaction list
   \<Rightarrow> category list \<Rightarrow> error + (request list \<times> transaction list)" where
  "categorize_transactions_batch rt client merchant_cache transactions categories =
     (case partition_cached merchant_cache 0 transactions of
        Inl e \<Rightarrow> Inl e
      | Inr (ts, uncached) \<Rightarrow>
          if uncached = [] then Inr ([], ts)
          else (let req = build_request categories (map (\<lambda>j. ts ! j) uncached)
                in Inr ([req], classify rt client req uncached ts)))"


subsection \<open>Notions used to state the properties of the batch categorization\<close>

text \<open>The cache entry under the transaction's merchant key, if there is one.\<close>

definition cached_entry :: "merchant_cache \<Rightarrow> transaction \<Rightarrow> cache_entry option" where
  "cached_entry mc t =
     (case merchant_key (description t) of Inl e \<Rightarrow> None | Inr k \<Rightarrow> map_of mc k)"

definition cache_miss :: "merchant_cache \<Rightarrow> transaction \<Rightarrow> bool" where
  "cache_miss mc t = (cached_entry mc t = None)"

text \<open>The transaction after the first loop.\<close>

definition tag_hit :: "merchant_cache \<Rightarrow> transaction \<Rightarrow> transaction" where
  "tag_hit mc t = (case cached_entry mc t of Some cached \<Rightarrow> tag_cached cached t | None \<Rightarrow> t)"

text \<open>The transaction after a failed classification.\<close>

definition tag_hit_or_fallback :: "merchant_cache \<Rightarrow> transaction \<Rightarrow> transaction" where
  "tag_hit_or_fallback mc t =
     (case cached_entry mc t of Some cached \<Rightarrow> tag_cached cached t | None \<Rightarrow> tag_fallback t)"

text \<open>Positions of the cache misses, counted from \<open>i\<close>.\<close>

fun miss_positions :: "merchant_cache \<Rightarrow> nat \<Rightarrow> transaction list \<Rightarrow> nat list" where
  "miss_positions mc i [] = []"
| "miss_positions mc i (t # ts) =
     (if cache_miss mc t then i # miss_positions mc (Suc i) ts
      else miss_positions mc (Suc i) ts)"

text \<open>The number of cache misses in front of position \<open>i\<close>: the ordinal of a miss,
  counted from 0.\<close>

definition miss_rank :: "merchant_cache \<Rightarrow> transaction list \<Rightarrow> nat \<Rightarrow> nat" where
  "miss_rank mc ts i = length (filter (cache_miss mc) (take i ts))"

fun is_object :: "json \<Rightarrow> bool" where
  "is_object (JObj kv) = True"
| "is_object v = False"

text \<open>The three assignments of the loop over the results, for an entry that is an
  object.\<close>

definition field_or :: "json \<Rightarrow> string \<Rightarrow> json \<Rightarrow> json" where
  "field_or result k d =
     (case result of JObj kv \<Rightarrow> (case obj_get kv k of None \<Rightarrow> d | Some v \<Rightarrow> v) | _ \<Rightarrow> d)"

definition assign_entry :: "json \<Rightarrow> transaction \<Rightarrow> transaction" where
  "assign_entry result t =
     t\<lparr>ai_suggested_code := Some (field_or result ''category_code'' (JStr ''500'')),
       ai_confidence := Some (field_or result ''confidence'' (JStr ''low'')),
       ai_from_cache := Some (JBool False)\<rparr>"

text \<open>The loop over the results as a loop over pairs of a position and an entry.\<close>

fun apply_pairs ::
  "(nat \<times> json) list \<Rightarrow> transaction list \<Rightarrow> error option \<times> transaction list" where
  "apply_pairs [] ts = (None, ts)"
| "apply_pairs ((j, result) # ps) ts =
     (case entry_get result ''category_code'' (JStr ''500'') of
        Inl e \<Rightarrow> (Some e, ts)
      | Inr code \<Rightarrow>
          (let ts = ts[j := (ts ! j)\<lparr>ai_suggested_code := Some code\<rparr>]
           in case entry_get result ''confidence'' (JStr ''low'') of
                Inl e \<Rightarrow> (Some e, ts)
              | Inr conf \<Rightarrow>
                  apply_pairs ps
                    (ts[j := (ts ! j)\<lparr>ai_confidence := Some conf,
                                       ai_from_cache := Some (JBool False)\<rparr>])))"

text \<open>The batch after a classification whose entries are matched one by one with the
  cache misses, in order.\<close>

fun annotate :: "merchant_cache \<Rightarrow> json list \<Rightarrow> transaction list \<Rightarrow> transaction list" where
  "annotate mc rs [] = []"
| "annotate mc rs (t # ts) =
     (case cached_entry mc t of
        Some cached \<Rightarrow> tag_cached cached t # annotate mc rs ts
      | None \<Rightarrow>
          (case rs of
             [] \<Rightarrow> t # annotate mc [] ts
           | r # rs' \<Rightarrow> assign_entry r t # annotate mc rs' ts))"

text \<open>Two transactions that the fallback maps to the same transaction.\<close>

definition same_but_ai :: "merchant_cache \<Rightarrow> transaction \<Rightarrow> transaction \<Rightarrow> bool" where
  "same_but_ai mc t x =
     (if cache_miss mc t then tag_fallback x = tag_fallback t else x = tag_hit mc t)"


section \<open>Reconciliation workflow\<close>

text \<open>
  What an endpoint answers when it does not succeed: a 400 response with its message,
  or the 500 response that follows an exception. In both cases nothing was saved.
\<close>

datatype failure = Http400 string | Http500 error

text \<open>The cache entry written when a category is learned.\<close>

definition learned :: "json \<Rightarrow> string \<Rightarrow> cache_entry" where
  "learned code trans_id =
     \<lparr>m_category_code = code, m_confidence = ''high'', m_learned_from = trans_id\<rparr>"

text \<open>\<open>api_transaction\<close> (PUT \<open>/api/transactions/<trans_id>\<close>): the three conditional
  assignments, then the loop up to its \<open>break\<close>.\<close>

definition edit_fields :: "(string \<times> json) list \<Rightarrow> transaction \<Rightarrow> transaction" where
  "edit_fields data t =
     (let t = (case obj_get data ''category_code'' of
                 None \<Rightarrow> t | Some v \<Rightarrow> t\<lparr>category_code := Some v\<rparr>);
          t = (case obj_get data ''reconciled'' of
                 None \<Rightarrow> t | Some v \<Rightarrow> t\<lparr>reconciled := Some v\<rparr>);
          t = (case obj_get data ''note'' of
                 None \<Rightarrow> t | Some v \<Rightarrow> t\<lparr>note' := Some v\<rparr>)
      in t)"

fun api_transaction_loop ::
  "string \<Rightarrow> (string \<times> json) list \<Rightarrow> merchant_cache \<Rightarrow> transaction list
   \<Rightarrow> error + (transaction list \<times> merchant_cache)" where
  "api_transaction_loop trans_id data mc [] = Inr ([], mc)"
| "api_transaction_loop trans_id data mc (t # ts) =
     (if id' t = trans_id then
        (let t = edit_fields data t
         in case obj_get data ''category_code'' of
              None \<Rightarrow> Inr (t # ts, mc)
            | Some code \<Rightarrow>
                if truthy code \<and>
                   truthy (case obj_get data ''update_cache'' of
                             None \<Rightarrow> JBool True | Some v \<Rightarrow> v)
                then (case merchant_key (description t) of
                        Inl e \<Rightarrow> Inl e
                      | Inr k \<Rightarrow> Inr (t # ts, AList.update k (learned code trans_id) mc))
                else Inr (t # ts, mc))
      else (case api_transaction_loop trans_id data mc ts of
              Inl e \<Rightarrow> Inl e
            | Inr (ts', mc') \<Rightarrow> Inr (t # ts', mc')))"

definition api_transaction ::
  "string \<Rightarrow> (string \<times> json) list \<Rightarrow> store \<Rightarrow> failure + store" where
  "api_transaction trans_id data st =
     (case api_transaction_loop trans_id data (merchant_cache_file st) (transactions_file st) of
        Inl e \<Rightarrow> Inl (Http500 e)
      | Inr (ts, mc) \<Rightarrow> Inr \<lparr>transactions_file = ts, merchant_cache_file = mc\<rparr>)"

text \<open>
  \<open>reconcile_transaction\<close> (POST \<open>/api/reconcile\<close>). \<open>t['id'] == trans_id\<close> compares
  a string with a decoded value and holds only of that same string, which is then what
  \<open>learned_from\<close> receives.
\<close>

fun reconcile_loop ::
  "json \<Rightarrow> json \<Rightarrow> merchant_cache \<Rightarrow> transaction list
   \<Rightarrow> error + (transaction list \<times> merchant_cache)" where
  "reconcile_loop trans_id code mc [] = Inr ([], mc)"
| "reconcile_loop trans_id code mc (t # ts) =
     (if JStr (id' t) = trans_id then
        (case merchant_key (description t) of
           Inl e \<Rightarrow> Inl e
         | Inr k \<Rightarrow>
             Inr (t\<lparr>category_code := Some code, reconciled := Some (JBool True)\<rparr> # ts,
                  AList.update k (learned code (id' t)) mc))
      else (case reconcile_loop trans_id code mc ts of
              Inl e \<Rightarrow> Inl e
            | Inr (ts', mc') \<Rightarrow> Inr (t # ts', mc')))"

definition reconcile_transaction :: "(string \<times> json) list \<Rightarrow> store \<Rightarrow> failure + store" where
  "reconcile_transaction data st =
     (case (obj_get data ''transaction_id'', obj_get data ''category_code'') of
        (Some trans_id, Some code) \<Rightarrow>
          if \<not> truthy trans_id \<or> \<not> truthy code
          then Inl (Http400 ''Missing transaction_id or category_code'')
          else (case reconcile_loop trans_id code (merchant_cache_file st) (transactions_file st) of
                  Inl e \<Rightarrow> Inl (Http500 e)
                | Inr (ts, mc) \<Rightarrow> Inr \<lparr>transactions_file = ts, merchant_cache_file = mc\<rparr>)
      | _ \<Rightarrow> Inl (Http400 ''Missing transaction_id or category_code''))"

text \<open>\<open>reconcile_all\<close> (POST \<open>/api/reconcile-all\<close>). The loop carries the cache and the
  counter.\<close>

fun reconcile_all_loop ::
  "merchant_cache \<Rightarrow> nat \<Rightarrow> transaction list
   \<Rightarrow> error + (transaction list \<times> merchant_cache \<times> nat)" where
  "reconcile_all_loop mc reconciled_count [] = Inr ([], mc, reconciled_count)"
| "reconcile_all_loop mc reconciled_count (t # ts) =
     (if \<not> get_truthy (reconciled t) \<and> get_truthy (ai_suggested_code t) then
        (case ai_suggested_code t of
           None \<Rightarrow> Inl KeyError
         | Some code \<Rightarrow>
             (case merchant_key (description t) of
                Inl e \<Rightarrow> Inl e
              | Inr k \<Rightarrow>
                  (case reconcile_all_loop (AList.update k (learned code (id' t)) mc)
                          (reconciled_count + 1) ts of
                     Inl e \<Rightarrow> Inl e
                   | Inr (ts', mc', n) \<Rightarrow>
                       Inr (t\<lparr>category_code := Some code,
                              reconciled := Some (JBool True)\<rparr> # ts', mc', n))))
      else (case reconcile_all_loop mc reconciled_count ts of
              Inl e \<Rightarrow> Inl e
            | Inr (ts', mc', n) \<Rightarrow> Inr (t # ts', mc', n)))"

text \<open>The answer carries the counter (\<open>'reconciled'\<close>).\<close>

definition reconcile_all :: "store \<Rightarrow> failure + (nat \<times> store)" where
  "reconcile_all st =
     (case reconcile_all_loop (merchant_cache_file st) 0 (transactions_file st) of
        Inl e \<Rightarrow> Inl (Http500 e)
      | Inr (ts, mc, n) \<Rightarrow> Inr (n, \<lparr>transactions_file = ts, merchant_cache_file = mc\<rparr>))"

subsection \<open>Notions used to state the properties of the reconciliation\<close>

text \<open>The merchant key of a transaction, the error case mapped to the empty key.\<close>

definition key_of :: "transaction \<Rightarrow> string" where
  "key_of t = (case merchant_key (description t) of Inl e \<Rightarrow> [] | Inr k \<Rightarrow> k)"

text \<open>The test of \<open>reconcile_all\<close>, the transaction it produces and the entry it learns.\<close>

definition accepts :: "transaction \<Rightarrow> bool" where
  "accepts t = (\<not> get_truthy (reconciled t) \<and> get_truthy (ai_suggested_code t))"

definition accept :: "transaction \<Rightarrow> transaction" where
  "accept t = t\<lparr>category_code := ai_suggested_code t, reconciled := Some (JBool True)\<rparr>"

definition learned_from_suggestion :: "transaction \<Rightarrow> cache_entry" where
  "learned_from_suggestion t =
     learned (case ai_suggested_code t of None \<Rightarrow> JNull | Some code \<Rightarrow> code) (id' t)"

definition learn_suggestion :: "merchant_cache \<Rightarrow> transaction \<Rightarrow> merchant_cache" where
  "learn_suggestion mc t = AList.update (key_of t) (learned_from_suggestion t) mc"

section \<open>Import\<close>

text \<open>A transaction as \<open>upload_csv\<close> creates it.\<close>

definition new_transaction :: "string \<Rightarrow> string \<Rightarrow> rat \<Rightarrow> string \<Rightarrow> transaction" where
  "new_transaction trans_id date_formatted amount_parsed desc =
     \<lparr>id' = trans_id, date = date_formatted, amount = amount_parsed, description = desc,
      category_code = Some JNull, reconciled = Some (JBool False),
      ai_suggested_code = None, ai_confidence = None, ai_from_cache = None,
      note' = None\<rparr>"

text \<open>\<open>str(n)\<close> for a natural number.\<close>

function str_nat :: "nat \<Rightarrow> string" where
  "str_nat n =
     (if n < 10 then [char_of (48 + n)] else str_nat (n div 10) @ [char_of (48 + n mod 10)])"
  by pat_completeness auto
termination
  by (relation "measure (\<lambda>n. n)") auto

text \<open>The identity key \<open>f"{date_formatted}_{abs(amount)}_{hash(description) % 10000}"\<close>.
  Python's \<open>%\<close> with a positive modulus is never negative, as \<open>mod\<close> on \<open>int\<close>.\<close>

definition trans_id_of :: "runtime \<Rightarrow> string \<Rightarrow> rat \<Rightarrow> string \<Rightarrow> string" where
  "trans_id_of rt date_formatted amount_parsed desc =
     date_formatted @ ''_'' @ py_str_float rt \<bar>amount_parsed\<bar> @ ''_''
       @ str_nat (nat (py_hash rt desc mod 10000))"

text \<open>
  The loop over the rows of the CSV reader. A \<open>ValueError\<close> of \<open>float\<close> leaves the loop
  and the \<open>try\<close>. The identifiers are compared with \<open>existing_ids\<close>, which was computed
  before the loop and is not extended in it.
\<close>

fun read_rows :: "runtime \<Rightarrow> string list \<Rightarrow> string list list \<Rightarrow> error + transaction list" where
  "read_rows rt existing_ids [] = Inr []"
| "read_rows rt existing_ids (row # rows) =
     (if 3 \<le> length row then
        (let date_str = row ! 0; amount_str = row ! 1; desc = row ! 2;
             date_formatted = (case strptime_dmy rt date_str of
                                 Some d \<Rightarrow> d | None \<Rightarrow> date_str)
         in case py_float rt (filter (\<lambda>c. c \<noteq> CHR 0x22 \<and> c \<noteq> CHR '','') amount_str) of
              None \<Rightarrow> Inl ValueError
            | Some amount_parsed \<Rightarrow>
                (let trans_id = trans_id_of rt date_formatted amount_parsed desc
                 in case read_rows rt existing_ids rows of
                      Inl e \<Rightarrow> Inl e
                    | Inr new_transactions \<Rightarrow>
                        Inr (if trans_id \<notin> set existing_ids
                             then new_transaction trans_id date_formatted amount_parsed (strip desc)
                                    # new_transactions
                             else new_transactions)))
      else read_rows rt existing_ids rows)"

text \<open>\<open>transactions.sort(key=lambda x: x['date'], reverse=True)\<close>: descending and
  stable, equal dates keep their order.\<close>

definition sort_by_date_desc :: "transaction list \<Rightarrow> transaction list" where
  "sort_by_date_desc ts = rev (sort_key date (rev ts))"

text \<open>
  \<open>upload_csv\<close> (POST \<open>/api/upload-csv\<close>). The uploaded file is its name and the rows
  that \<open>csv.reader\<close> yields; \<open>None\<close> is a request without a file. The result is the
  answer (the number imported and the transactions), the requests sent to the
  classifier, and the store.
\<close>

definition upload_csv ::
  "runtime \<Rightarrow> (request \<Rightarrow> string option) \<Rightarrow> category list
   \<Rightarrow> (string \<times> string list list) option \<Rightarrow> store
   \<Rightarrow> (failure + (nat \<times> transaction list)) \<times> request list \<times> store" where
  "upload_csv rt client categories file st =
     (case file of
        None \<Rightarrow> (Inl (Http400 ''No file provided''), [], st)
      | Some (filename, rows) \<Rightarrow>
          if filename = [] then (Inl (Http400 ''No file selected''), [], st)
          else
            (let transactions = transactions_file st;
                 existing_ids = map id' transactions
             in case read_rows rt existing_ids rows of
                  Inl e \<Rightarrow> (Inl (Http500 e), [], st)
                | Inr new_transactions \<Rightarrow>
                    if new_transactions \<noteq> [] then
                      (case categorize_transactions_batch rt client (merchant_cache_file st)
                              new_transactions categories of
                         Inl e \<Rightarrow> (Inl (Http500 e), [], st)
                       | Inr (calls, new_transactions) \<Rightarrow>
                           (let transactions = sort_by_date_desc (transactions @ new_transactions)
                            in (Inr (length new_transactions, transactions), calls,
                                st\<lparr>transactions_file := transactions\<rparr>)))
                    else (Inr (0, transactions), [], st)))"

subsection \<open>Notions used to state the properties of the import\<close>

text \<open>What the loop computes from one row with at least three fields.\<close>

definition row_date :: "runtime \<Rightarrow> string list \<Rightarrow> string" where
  "row_date rt row = (case strptime_dmy rt (row ! 0) of Some d \<Rightarrow> d | None \<Rightarrow> row ! 0)"

definition row_amount :: "runtime \<Rightarrow> string list \<Rightarrow> rat option" where
  "row_amount rt row = py_float rt (filter (\<lambda>c. c \<noteq> CHR 0x22 \<and> c \<noteq> CHR '','') (row ! 1))"

definition row_id :: "runtime \<Rightarrow> string list \<Rightarrow> string" where
  "row_id rt row =
     trans_id_of rt (row_date rt row) (case row_amount rt row of None \<Rightarrow> 0 | Some a \<Rightarrow> a)
       (row ! 2)"

definition row_transaction :: "runtime \<Rightarrow> string list \<Rightarrow> transaction" where
  "row_transaction rt row =
     new_transaction (row_id rt row) (row_date rt row)
       (case row_amount rt row of None \<Rightarrow> 0 | Some a \<Rightarrow> a) (strip (row ! 2))"

text \<open>A row that the loop turns into a new transaction: it has three fields and its
  identifier is not among the given ones.\<close>

definition imported_row :: "runtime \<Rightarrow> string list \<Rightarrow> string list \<Rightarrow> bool" where
  "imported_row rt existing_ids row = (3 \<le> length row \<and> row_id rt row \<notin> set existing_ids)"

text \<open>A row on which \<open>float\<close> raises.\<close>

definition bad_row :: "runtime \<Rightarrow> string list \<Rightarrow> bool" where
  "bad_row rt row = (3 \<le> length row \<and> row_amount rt row = None)"

text \<open>A transaction without its three \<open>ai_*\<close> keys.\<close>

definition without_ai :: "transaction \<Rightarrow> transaction" where
  "without_ai t = t\<lparr>ai_suggested_code := None, ai_confidence := None, ai_from_cache := None\<rparr>"

section \<open>Aggregation\<close>

text \<open>
  A dictionary whose keys are decoded values, in insertion order. Python compares keys
  with \<open>==\<close> after hashing: lists and dictionaries cannot be hashed (\<open>None\<close> below),
  and \<open>True\<close>/\<open>False\<close> are the same keys as \<open>1\<close>/\<open>0\<close>. An existing key keeps the
  key object that was inserted first.
\<close>

fun dict_key :: "json \<Rightarrow> json option" where
  "dict_key (JArr xs) = None"
| "dict_key (JObj kv) = None"
| "dict_key (JBool b) = Some (JNum (if b then 1 else 0))"
| "dict_key v = Some v"

fun dict_get :: "(json \<times> 'v) list \<Rightarrow> json \<Rightarrow> 'v option" where
  "dict_get [] k = None"
| "dict_get ((k', v) # d) k = (if dict_key k' = dict_key k then Some v else dict_get d k)"

fun dict_set :: "(json \<times> 'v) list \<Rightarrow> json \<Rightarrow> 'v \<Rightarrow> (json \<times> 'v) list" where
  "dict_set [] k v = [(k, v)]"
| "dict_set ((k', v') # d) k v =
     (if dict_key k' = dict_key k then (k', v) # d else (k', v') # dict_set d k v)"

text \<open>The three filters of \<open>api_analysis\<close>.\<close>

definition filtered :: "string \<Rightarrow> transaction list \<Rightarrow> transaction list" where
  "filtered transaction_type ts =
     (if transaction_type = ''expenses''
      then filter (\<lambda>t. get_truthy (reconciled t) \<and> amount t < 0) ts
      else if transaction_type = ''income''
      then filter (\<lambda>t. get_truthy (reconciled t) \<and> amount t > 0) ts
      else filter (\<lambda>t. get_truthy (reconciled t)) ts)"

text \<open>\<open>t.get('category_code', '500')\<close>: the default is for a missing key only.\<close>

definition code_of :: "transaction \<Rightarrow> json" where
  "code_of t = (case category_code t of None \<Rightarrow> JStr ''500'' | Some v \<Rightarrow> v)"

text \<open>The grouping loop, with the two dictionaries \<open>category_totals\<close> and
  \<open>category_transactions\<close>.\<close>

fun group_loop ::
  "runtime \<Rightarrow> transaction list \<Rightarrow> (json \<times> rat) list \<Rightarrow> (json \<times> transaction list) list
   \<Rightarrow> error + ((json \<times> rat) list \<times> (json \<times> transaction list) list)" where
  "group_loop rt [] category_totals category_transactions =
     Inr (category_totals, category_transactions)"
| "group_loop rt (t # ts) category_totals category_transactions =
     (let code = code_of t; amount_abs = \<bar>amount t\<bar>
      in if dict_key code = None then Inl TypeError
         else
           (let (category_totals, category_transactions) =
                  (if dict_get category_totals code = None
                   then (dict_set category_totals code 0, dict_set category_transactions code [])
                   else (category_totals, category_transactions))
            in case (dict_get category_totals code, dict_get category_transactions code) of
                 (Some total', Some l) \<Rightarrow>
                   group_loop rt ts
                     (dict_set category_totals code (float_add rt total' amount_abs))
                     (dict_set category_transactions code (l @ [t]))
               | _ \<Rightarrow> Inl KeyError))"

text \<open>One element of the answer (\<open>code\<close>, \<open>name\<close>, \<open>type\<close>, \<open>total\<close>,
  \<open>transactions\<close>).\<close>

record category_group =
  g_code :: json
  g_name :: string
  g_type :: string
  g_total :: rat
  g_transactions :: "transaction list"

text \<open>\<open>category_map.get(code, {'name': 'Unknown', 'type': 'variable'})\<close>, where
  \<open>category_map\<close> is keyed by the category codes, the last category of a code winning.\<close>

definition category_names :: "category list \<Rightarrow> json \<Rightarrow> string \<times> string" where
  "category_names categories code =
     (case find (\<lambda>c. JStr (c_code c) = code) (rev categories) of
        Some c \<Rightarrow> (c_name c, c_type c)
      | None \<Rightarrow> (''Unknown'', ''variable''))"

text \<open>\<open>sorted(category_totals.items(), key=lambda x: x[1], reverse=True)\<close>.\<close>

definition sorted_items_desc :: "(json \<times> rat) list \<Rightarrow> (json \<times> rat) list" where
  "sorted_items_desc items = rev (sort_key snd (rev items))"

fun build_result ::
  "runtime \<Rightarrow> category list \<Rightarrow> (json \<times> transaction list) list \<Rightarrow> (json \<times> rat) list
   \<Rightarrow> error + category_group list" where
  "build_result rt categories category_transactions [] = Inr []"
| "build_result rt categories category_transactions ((code, total') # items) =
     (case dict_get category_transactions code of
        None \<Rightarrow> Inl KeyError
      | Some l \<Rightarrow>
          (case build_result rt categories category_transactions items of
             Inl e \<Rightarrow> Inl e
           | Inr result \<Rightarrow>
               Inr (\<lparr>g_code = code,
                     g_name = fst (category_names categories code),
                     g_type = snd (category_names categories code),
                     g_total = round2 rt total',
                     g_transactions = l\<rparr> # result)))"

text \<open>\<open>api_analysis\<close> (GET \<open>/api/analysis\<close>); the first argument is the query
  parameter \<open>type\<close>, if given. Nothing is saved.\<close>

definition api_analysis ::
  "runtime \<Rightarrow> string option \<Rightarrow> category list \<Rightarrow> store \<Rightarrow> failure + category_group list" where
  "api_analysis rt type_arg categories st =
     (let transaction_type = (case type_arg of None \<Rightarrow> ''expenses'' | Some s \<Rightarrow> s)
      in case group_loop rt (filtered transaction_type (transactions_file st)) [] [] of
           Inl e \<Rightarrow> Inl (Http500 e)
         | Inr (category_totals, category_transactions) \<Rightarrow>
             (case build_result rt categories category_transactions
                     (sorted_items_desc category_totals) of
                Inl e \<Rightarrow> Inl (Http500 e)
              | Inr result \<Rightarrow> Inr result))"


subsection \<open>Notions used to state the properties of the aggregation\<close>








section \<open>The operations on the store\<close>

text \<open>
  The operations that the reconciliation claims range over: the update of a
  transaction by id (the manual edit, with or without the update of the cache), the
  single reconcile, reconcile-all, the import and the aggregation. \<open>after_operation\<close>
  is the store once the request has been answered; a request that fails has saved
  nothing, and the aggregation saves nothing.
\<close>

datatype operation =
    UpdateById string "(string \<times> json) list"
  | Reconcile "(string \<times> json) list"
  | ReconcileAll
  | Import "(string \<times> string list list) option"
  | Aggregate "string option"

fun after_operation ::
  "runtime \<Rightarrow> (request \<Rightarrow> string option) \<Rightarrow> category list \<Rightarrow> operation \<Rightarrow> store \<Rightarrow> store" where
  "after_operation rt client categories (UpdateById trans_id data) st =
     (case api_transaction trans_id data st of Inl e \<Rightarrow> st | Inr st' \<Rightarrow> st')"
| "after_operation rt client categories (Reconcile data) st =
     (case reconcile_transaction data st of Inl e \<Rightarrow> st | Inr st' \<Rightarrow> st')"
| "after_operation rt client categories ReconcileAll st =
     (case reconcile_all st of Inl e \<Rightarrow> st | Inr (n, st') \<Rightarrow> st')"
| "after_operation rt client categories (Import csv_file) st =
     snd (snd (upload_csv rt client categories csv_file st))"
| "after_operation rt client categories (Aggregate type_arg) st = st"

text \<open>An update by id whose body carries a falsy \<open>reconciled\<close>.\<close>

fun unreconciles :: "operation \<Rightarrow> bool" where
  "unreconciles (UpdateById trans_id data) =
     (case obj_get data ''reconciled'' of None \<Rightarrow> False | Some v \<Rightarrow> \<not> truthy v)"
| "unreconciles oper = False"

text \<open>A transaction and its successor: the same id, and still reconciled if it was.\<close>

definition still_reconciled :: "transaction \<Rightarrow> transaction \<Rightarrow> bool" where
  "still_reconciled t t' =
     (id' t' = id' t \<and> (get_truthy (reconciled t) \<longrightarrow> get_truthy (reconciled t')))"

text \<open>
  What an operation keeps of the reconciled transactions. The import moves the
  transactions when it sorts: every stored transaction is still stored, as it was. The
  other operations keep every transaction at its position.
\<close>

fun keeps_reconciled :: "operation \<Rightarrow> transaction list \<Rightarrow> transaction list \<Rightarrow> bool" where
  "keeps_reconciled (Import csv_file) old new = (mset old \<subseteq># mset new)"
| "keeps_reconciled oper old new =
     (length new = length old \<and> (\<forall>i<length old. still_reconciled (old ! i) (new ! i)))"

text \<open>The transactions after an update by id: the first one with the id is edited.\<close>

fun edit_first :: "string \<Rightarrow> (string \<times> json) list \<Rightarrow> transaction list \<Rightarrow> transaction list" where
  "edit_first trans_id data [] = []"
| "edit_first trans_id data (t # ts) =
     (if id' t = trans_id then edit_fields data t # ts else t # edit_first trans_id data ts)"

section \<open>Concrete inputs\<close>

text \<open>
  A runtime whose library functions are defined on the few strings that the concrete
  inputs below use: \<open>float\<close> and \<open>str\<close> of the amounts, \<open>json.loads\<close> of the
  answers, the date \<open>15/01/2024\<close>. Its \<open>hash\<close> is the salted hash of one
  process; \<open>restarted_runtime\<close> is the same interpreter after a restart, with another
  salt.
\<close>

definition example_runtime :: runtime where
  "example_runtime =
     \<lparr>py_hash = (\<lambda>s. int (length s)),
      py_float = (\<lambda>s. if s = ''-4.50'' then Some (- 9 / 2)
                       else if s = ''1250.00'' then Some 1250 else None),
      py_str_float = (\<lambda>r. if r = 9 / 2 then ''4.5''
                           else if r = 1250 then ''1250.0'' else ''?''),
      strptime_dmy = (\<lambda>s. if s = ''15/01/2024'' then Some ''2024-01-15'' else None),
      float_add = (+),
      round2 = (\<lambda>r. r),
      json_loads = (\<lambda>s. if s = ''[{}]'' then Some (JArr [JObj []])
                         else if s = ''[1, {}]'' then Some (JArr [JNum 1, JObj []])
                         else None)\<rparr>"

definition restarted_runtime :: runtime where
  "restarted_runtime = example_runtime\<lparr>py_hash := (\<lambda>s. int (length s) + 3)\<rparr>"

definition example_cache :: merchant_cache where
  "example_cache =
     [(''coles'', \<lparr>m_category_code = JStr ''100'', m_confidence = ''high'',
                   m_learned_from = ''2024-01-02_31.0_1234''\<rparr>)]"

definition coles_tx :: transaction where
  "coles_tx = new_transaction ''2024-01-15_4.5_21'' ''2024-01-15'' (- 9 / 2) ''COLES 0456  MELBOURNE''"

definition uber_tx :: transaction where
  "uber_tx = new_transaction ''2024-01-15_4.5_9'' ''2024-01-15'' (- 9 / 2) ''UBER TRIP''"

definition myki_tx :: transaction where
  "myki_tx = new_transaction ''2024-01-15_4.5_4'' ''2024-01-15'' (- 9 / 2) ''MYKI''"


text \<open>A CSV row and the store before anything was imported.\<close>

definition myki_row :: "string list" where
  "myki_row = [''15/01/2024'', ''-4.50'', ''MYKI'']"

definition empty_store :: store where
  "empty_store = \<lparr>transactions_file = [], merchant_cache_file = []\<rparr>"

text \<open>The category \<open>500\<close>, and a transaction with a given amount, category and
  reconciled flag.\<close>

definition other_category :: category where
  "other_category = \<lparr>c_code = ''500'', c_name = ''Other'', c_type = ''variable'',
                      c_category_type = ''Expense''\<rparr>"


section \<open>Properties of the merchant normalizer\<close>

lemma find_map_index: "find P (map f xs) = map_option f (find (P \<circ> f) xs)"
  by (induction xs) auto

lemma find_upt_Suc:
  "find P [0 ..< Suc n] = (if P 0 then Some 0 else map_option Suc (find (P \<circ> Suc) [0 ..< n]))"
proof -
  have "[0 ..< Suc n] = 0 # map Suc [0 ..< n]"
    by (simp add: upt_conv_Cons map_Suc_upt del: upt_Suc)
  then show ?thesis
    by (simp add: find_map_index del: upt_Suc)
qed

lemma truncate_spec_Nil [simp]: "truncate_spec [] = []"
  by (simp add: truncate_spec_def)

lemma truncate_spec_single [simp]: "truncate_spec [a] = [a]"
  by (simp add: truncate_spec_def)

lemma truncate_spec_Cons2:
  "truncate_spec (a # b # cs) =
     (if isspace a \<and> isspace b then [] else a # truncate_spec (b # cs))"
  by (simp add: truncate_spec_def find_upt_Suc comp_def del: upt_Suc split: option.splits)

lemma re_split_ws2_hd:
  "\<exists>rest. re_split_ws2 acc s = (rev acc @ truncate_spec s) # rest"
  by (induction acc s rule: re_split_ws2.induct) (auto simp: truncate_spec_Cons2)

lemma last_dropWhile: "dropWhile P xs \<noteq> [] \<Longrightarrow> last (dropWhile P xs) = last xs"
  by (induction xs) (auto split: if_splits)

lemma hd_dropWhile_not: "dropWhile P xs \<noteq> [] \<Longrightarrow> \<not> P (hd (dropWhile P xs))"
  by (simp add: hd_dropWhile)

lemma trimmed_rev_dropWhile:
  assumes "xs = [] \<or> \<not> isspace (last xs)"
  shows "trimmed (rev (dropWhile isspace xs))"
proof (cases "dropWhile isspace xs = []")
  case True
  then show ?thesis by (simp add: trimmed_def)
next
  case False
  then have "xs \<noteq> []" by auto
  with assms have l: "\<not> isspace (last xs)" by simp
  have "hd (rev (dropWhile isspace xs)) = last xs"
    using False by (simp add: hd_rev last_dropWhile)
  moreover have "last (rev (dropWhile isspace xs)) = hd (dropWhile isspace xs)"
    using False by (simp add: last_rev)
  ultimately show ?thesis
    using False l by (simp add: trimmed_def hd_dropWhile_not)
qed

lemma trimmed_strip: "trimmed (strip s)"
proof -
  let ?u = "dropWhile isspace s"
  have "rev ?u = [] \<or> \<not> isspace (last (rev ?u))"
    by (cases "?u = []") (simp_all add: last_rev hd_dropWhile_not)
  then show ?thesis
    unfolding strip_def by (rule trimmed_rev_dropWhile)
qed

lemma dropWhile_hd_id: "xs = [] \<or> \<not> P (hd xs) \<Longrightarrow> dropWhile P xs = xs"
  by (cases xs) auto

lemma strip_trimmed: "trimmed s \<Longrightarrow> strip s = s"
  by (cases "s = []") (simp_all add: strip_def trimmed_def dropWhile_hd_id hd_rev)

lemma trim_spec_strip: "trim_spec s = strip s"
  by (simp add: trim_spec_def strip_def)

lemma truncate_spec_last:
  "s = [] \<or> \<not> isspace (last s) \<Longrightarrow>
   truncate_spec s = [] \<or> \<not> isspace (last (truncate_spec s))"
proof (induction s rule: induct_list012)
  case 1
  then show ?case by simp
next
  case (2 x)
  then show ?case by simp
next
  case (3 x y zs)
  then show ?case
    by (cases zs) (auto simp: truncate_spec_Cons2 split: if_splits)
qed

lemma truncate_spec_hd: "truncate_spec s \<noteq> [] \<Longrightarrow> hd (truncate_spec s) = hd s"
  by (induction s rule: induct_list012) (auto simp: truncate_spec_Cons2 split: if_splits)

lemma trimmed_truncate: "trimmed s \<Longrightarrow> trimmed (truncate_spec s)"
  using truncate_spec_last [of s] truncate_spec_hd [of s]
  by (auto simp: trimmed_def)

lemma match_at_end_spec:
  assumes tok: "\<And>c. tokp c \<Longrightarrow> \<not> isspace c" and l0: "\<not> lenok 0"
  shows "(case match_at_end tokp lenok s of Some p \<Rightarrow> p | None \<Rightarrow> s) =
         strip_trailing_token (\<lambda>t. lenok (length t) \<and> list_all tokp t) s"
proof -
  let ?r = "rev s"
  let ?tok = "takeWhile tokp ?r" and ?rest = "dropWhile tokp ?r"
  let ?lt = "takeWhile (\<lambda>c. \<not> isspace c) ?r" and ?lr = "dropWhile (\<lambda>c. \<not> isspace c) ?r"
  show ?thesis
  proof (cases "lenok (length ?tok) \<and> takeWhile isspace ?rest \<noteq> []")
    case True
    then have rest: "?rest \<noteq> []" and hd: "isspace (hd ?rest)"
      by (auto simp: takeWhile_eq_Nil_iff)
    have split: "?r = ?tok @ ?rest" by simp
    have all: "\<forall>c\<in>set ?tok. \<not> isspace c"
      using tok by (auto dest: set_takeWhileD)
    have lt: "?lt = ?tok"
    proof -
      have "takeWhile (\<lambda>c. \<not> isspace c) (?tok @ ?rest) = ?tok"
        using all rest hd by (cases ?rest) simp_all
      then show ?thesis by simp
    qed
    have lr: "?lr = ?rest"
    proof -
      have "dropWhile (\<lambda>c. \<not> isspace c) (?tok @ ?rest) = ?rest"
        using all rest hd by (cases ?rest) simp_all
      then show ?thesis by simp
    qed
    have "length ?lt < length s"
      using rest lt by (metis add_diff_cancel_left' length_append length_greater_0_conv length_rev split zero_less_diff)
    moreover have "list_all tokp ?tok"
      by (auto simp: list_all_iff dest: set_takeWhileD)
    ultimately show ?thesis
      using True lt lr
      by (simp add: match_at_end_def strip_trailing_token_def last_token_def before_last_token_def Let_def)
  next
    case False
    have "\<not> (lenok (length ?lt) \<and> list_all tokp ?lt \<and> length ?lt < length s)"
    proof
      assume a: "lenok (length ?lt) \<and> list_all tokp ?lt \<and> length ?lt < length s"
      then have lr: "?lr \<noteq> []"
        by (metis append_Nil2 length_rev less_irrefl takeWhile_dropWhile_id)
      then have hd: "isspace (hd ?lr)"
        using hd_dropWhile [of "\<lambda>c. \<not> isspace c" ?r] by simp
      have "takeWhile tokp (?lt @ ?lr) = ?lt"
        using a lr hd tok by (cases ?lr) (auto simp: list_all_iff)
      then have t: "?tok = ?lt" by simp
      have "dropWhile tokp (?lt @ ?lr) = ?lr"
        using a lr hd tok by (cases ?lr) (auto simp: list_all_iff)
      then have r: "?rest = ?lr" by simp
      from False t r a lr hd show False
        by (cases ?lr) (auto simp: takeWhile_eq_Nil_iff)
    qed
    then have "\<not> ((lenok (length (last_token s)) \<and> list_all tokp (last_token s)) \<and>
                length (last_token s) < length s)"
      by (simp add: last_token_def list_all_iff)
    then have "strip_trailing_token (\<lambda>t. lenok (length t) \<and> list_all tokp t) s = s"
      unfolding strip_trailing_token_def by (rule if_not_P)
    moreover have "match_at_end tokp lenok s = None"
      using False unfolding match_at_end_def Let_def by (rule if_not_P)
    ultimately show ?thesis by simp
  qed
qed


lemma isspace_newline: "isspace (CHR 0x0A)"
  by (simp add: isspace_def)

lemma re_sub_trailing_spec:
  assumes "\<And>c. tokp c \<Longrightarrow> \<not> isspace c" and "\<not> lenok 0"
    and "s = [] \<or> \<not> isspace (last s)"
  shows "re_sub_trailing tokp lenok s =
         strip_trailing_token (\<lambda>t. lenok (length t) \<and> list_all tokp t) s"
proof -
  have "\<not> (s \<noteq> [] \<and> last s = CHR 0x0A)"
    using assms(3) isspace_newline by auto
  then have "re_sub_trailing tokp lenok s =
             (case match_at_end tokp lenok s of Some p \<Rightarrow> p | None \<Rightarrow> s)"
    unfolding re_sub_trailing_def by (rule if_not_P)
  then show ?thesis
    using match_at_end_spec [of tokp lenok s] assms(1,2) by simp
qed

lemma before_last_token_trimmed:
  assumes "trimmed s"
  shows "trimmed (before_last_token s)"
proof -
  let ?d = "dropWhile (\<lambda>c. \<not> isspace c) (rev s)"
  have "?d = [] \<or> \<not> isspace (last ?d)"
  proof (cases "?d = []")
    case False
    then have "s \<noteq> []" by auto
    moreover have "last ?d = last (rev s)"
      using False by (rule last_dropWhile)
    ultimately show ?thesis
      using assms by (simp add: trimmed_def last_rev)
  qed simp
  then show ?thesis
    unfolding before_last_token_def by (rule trimmed_rev_dropWhile)
qed

lemma strip_trailing_token_trimmed:
  "trimmed s \<Longrightarrow> trimmed (strip_trailing_token is_tok s)"
  by (simp add: strip_trailing_token_def before_last_token_trimmed)

lemma trimmed_last: "trimmed s \<Longrightarrow> s = [] \<or> \<not> isspace (last s)"
  by (auto simp: trimmed_def)

lemma isdigit_not_space: "isdigit c \<Longrightarrow> \<not> isspace c"
  by (auto simp: isdigit_def isspace_def Let_def)

lemma isupper_not_space: "isupper_az c \<Longrightarrow> \<not> isspace c"
  by (auto simp: isupper_az_def isspace_def Let_def)

lemma numeric_token_eq: "numeric_token = (\<lambda>t. 1 \<le> length t \<and> list_all isdigit t)"
  by (auto simp: numeric_token_def fun_eq_iff Suc_le_eq)

lemma upper23_token_eq:
  "upper23_token = (\<lambda>t. (2 \<le> length t \<and> length t \<le> 3) \<and> list_all isupper_az t)"
  by (auto simp: upper23_token_def fun_eq_iff)

lemma extract_merchant_name_eq: "extract_merchant_name d = Inr (normalize_spec d)"
proof -
  let ?a = "strip d"
  let ?b = "truncate_spec ?a"
  let ?c = "strip_trailing_token numeric_token ?b"
  let ?e = "strip_trailing_token upper23_token ?c"
  obtain rest where split: "re_split_ws2 [] ?a = ?b # rest"
    using re_split_ws2_hd [of "[]" ?a] by auto
  have tb: "trimmed ?b" by (simp add: trimmed_strip trimmed_truncate)
  then have tc: "trimmed ?c" by (rule strip_trailing_token_trimmed)
  then have te: "trimmed ?e" by (rule strip_trailing_token_trimmed)
  have 1: "re_sub_trailing isdigit (\<lambda>n. 1 \<le> n) ?b = ?c"
    unfolding numeric_token_eq
    by (rule re_sub_trailing_spec) (use tb in \<open>simp_all add: isdigit_not_space trimmed_last\<close>)
  have 2: "re_sub_trailing isupper_az (\<lambda>n. 2 \<le> n \<and> n \<le> 3) ?c = ?e"
    unfolding upper23_token_eq
    by (rule re_sub_trailing_spec) (use tc in \<open>simp_all add: isupper_not_space trimmed_last\<close>)
  have "extract_merchant_name d = Inr (strip ?e)"
    unfolding extract_merchant_name_def Let_def split list.case 1 2 ..
  also have "strip ?e = ?e" using te by (rule strip_trimmed)
  finally show ?thesis by (simp add: normalize_spec_def trim_spec_strip)
qed

lemma merchant_key_eq: "merchant_key d = Inr (lower (normalize_spec d))"
  by (simp add: merchant_key_def extract_merchant_name_eq)

text \<open>
  Claim C8. For every description the normalizer returns a string, never an error, and
  that string is the result of the four steps of the specification applied in order:
  trim the whitespace, cut at the first run of two or more whitespace characters, strip
  a trailing all-digit token, strip a trailing token of two or three ASCII capitals. The
  cache key is this string lower-cased, and the description
  \<open>WOOLWORTHS 1234   MELBOURNE VIC\<close> has the key \<open>woolworths\<close>. The last
  \<open>strip()\<close> of the source never removes anything, and the \<open>$\<close> of the two
  patterns never meets a trailing newline.
\<close>

theorem extract_merchant_name_normalizes:
  "extract_merchant_name d = Inr (normalize_spec d) \<and>
   merchant_key d = Inr (lower (normalize_spec d)) \<and>
   merchant_key ''WOOLWORTHS 1234   MELBOURNE VIC'' = Inr ''woolworths''"
proof -
  have "merchant_key ''WOOLWORTHS 1234   MELBOURNE VIC'' = Inr ''woolworths''"
    by code_simp
  then show ?thesis
    by (simp add: extract_merchant_name_eq merchant_key_eq)
qed

section \<open>Properties of the batch categorization\<close>

lemma cached_entry_key:
  "cached_entry mc t = map_of mc (lower (normalize_spec (description t)))"
  by (simp add: cached_entry_def merchant_key_eq)

lemma partition_cached_eq:
  "partition_cached mc i ts = Inr (map (tag_hit mc) ts, miss_positions mc i ts)"
  by (induction ts arbitrary: i)
     (auto simp: merchant_key_eq tag_hit_def cache_miss_def cached_entry_def split: option.splits)

lemma apply_results_done:
  "length uncached \<le> i \<Longrightarrow> apply_results uncached i rs ts = (None, ts)"
  by (induction rs arbitrary: i) auto

lemma apply_results_pairs:
  "apply_results uncached i rs ts = apply_pairs (zip (drop i uncached) rs) ts"
proof (induction rs arbitrary: i ts)
  case Nil
  then show ?case by simp
next
  case (Cons r rs)
  show ?case
  proof (cases "i < length uncached")
    case True
    then have d: "drop i uncached = uncached ! i # drop (Suc i) uncached"
      by (simp add: Cons_nth_drop_Suc)
    show ?thesis
      using True by (simp add: d Cons.IH Let_def split: sum.splits)
  next
    case False
    then show ?thesis by (simp add: apply_results_done)
  qed
qed

lemma annotate_Nil: "annotate mc [] ts = map (tag_hit mc) ts"
  by (induction ts) (auto simp: tag_hit_def split: option.splits)

lemma entry_get_object:
  "is_object r \<Longrightarrow> entry_get r k d = Inr (field_or r k d)"
  by (cases r) (simp_all add: field_or_def)

lemma entry_get_not_object:
  "\<not> is_object r \<Longrightarrow> entry_get r k d = Inl AttributeError"
  by (cases r) simp_all

lemma update_at_length: "(pre @ x # xs)[length pre := y] = pre @ y # xs"
  by (simp add: list_update_append)

lemma assign_entry_steps:
  "t\<lparr>ai_suggested_code := Some (field_or r ''category_code'' (JStr ''500''))\<rparr>
    \<lparr>ai_confidence := Some (field_or r ''confidence'' (JStr ''low'')),
     ai_from_cache := Some (JBool False)\<rparr> = assign_entry r t"
  by (simp add: assign_entry_def)

lemma tag_hit_miss: "cache_miss mc t \<Longrightarrow> tag_hit mc t = t"
  by (simp add: tag_hit_def cache_miss_def)

lemma tag_hit_hit: "cached_entry mc t = Some c \<Longrightarrow> tag_hit mc t = tag_cached c t"
  by (simp add: tag_hit_def)

lemma apply_pairs_success:
  "list_all is_object (take (length (filter (cache_miss mc) ts)) rs) \<Longrightarrow>
   apply_pairs (zip (miss_positions mc (length pre) ts) rs) (pre @ map (tag_hit mc) ts)
     = (None, pre @ annotate mc rs ts)"
proof (induction ts arbitrary: pre rs)
  case Nil
  then show ?case by simp
next
  case (Cons t ts)
  show ?case
  proof (cases "cache_miss mc t")
    case False
    then obtain c where c: "cached_entry mc t = Some c"
      by (auto simp: cache_miss_def)
    have "apply_pairs (zip (miss_positions mc (length (pre @ [tag_hit mc t])) ts) rs)
            ((pre @ [tag_hit mc t]) @ map (tag_hit mc) ts)
          = (None, (pre @ [tag_hit mc t]) @ annotate mc rs ts)"
      using Cons.prems False by (intro Cons.IH) simp
    then show ?thesis
      using False c by (simp add: tag_hit_hit)
  next
    case True
    then have n: "cached_entry mc t = None" by (simp add: cache_miss_def)
    show ?thesis
    proof (cases rs)
      case Nil
      then show ?thesis using True n by (simp add: annotate_Nil tag_hit_miss)
    next
      case (Cons r rs')
      with Cons.prems True have obj: "is_object r"
        and rest: "list_all is_object (take (length (filter (cache_miss mc) ts)) rs')"
        by simp_all
      have "apply_pairs (zip (miss_positions mc (length (pre @ [assign_entry r t])) ts) rs')
              ((pre @ [assign_entry r t]) @ map (tag_hit mc) ts)
            = (None, (pre @ [assign_entry r t]) @ annotate mc rs' ts)"
        using rest by (intro Cons.IH)
      then show ?thesis
        using True n Cons obj
        by (simp add: entry_get_object tag_hit_miss update_at_length assign_entry_steps)
    qed
  qed
qed


lemma apply_pairs_raises:
  "(fst (apply_pairs ps ts) = None) = list_all is_object (map snd ps)"
proof (induction ps arbitrary: ts)
  case Nil
  then show ?case by simp
next
  case (Cons p ps)
  obtain j r where p: "p = (j, r)" by (cases p)
  show ?case
    by (cases "is_object r")
       (simp_all add: p entry_get_object entry_get_not_object Cons.IH Let_def)
qed

lemma length_miss_positions:
  "length (miss_positions mc i ts) = length (filter (cache_miss mc) ts)"
  by (induction ts arbitrary: i) auto

lemma snd_zip_miss_positions:
  "map snd (zip (miss_positions mc i ts) rs) = take (length (filter (cache_miss mc) ts)) rs"
  by (simp add: map_snd_zip_take length_miss_positions min_def)

lemma tag_fallback_assign: "tag_fallback (assign_entry r x) = tag_fallback x"
  by (simp add: tag_fallback_def assign_entry_def)

lemma same_but_ai_tag_hit: "same_but_ai mc t (tag_hit mc t)"
  by (simp add: same_but_ai_def tag_hit_miss)

lemma apply_pairs_shape:
  "list_all2 (same_but_ai mc) ts xs \<Longrightarrow>
   \<exists>ys. snd (apply_pairs (zip (miss_positions mc (length pre) ts) rs) (pre @ xs)) = pre @ ys
        \<and> list_all2 (same_but_ai mc) ts ys"
proof (induction ts arbitrary: pre rs xs)
  case Nil
  then show ?case by simp
next
  case (Cons t ts)
  then obtain x xs' where xs: "xs = x # xs'" and x: "same_but_ai mc t x"
    and rest: "list_all2 (same_but_ai mc) ts xs'"
    by (auto simp: list_all2_Cons1)
  show ?case
  proof (cases "cache_miss mc t")
    case False
    obtain ys where
      "snd (apply_pairs (zip (miss_positions mc (length (pre @ [x])) ts) rs) ((pre @ [x]) @ xs'))
         = (pre @ [x]) @ ys" and "list_all2 (same_but_ai mc) ts ys"
      using Cons.IH [OF rest] by blast
    then show ?thesis
      using False x by (auto simp: xs)
  next
    case True
    show ?thesis
    proof (cases rs)
      case Nil
      then show ?thesis using True Cons.prems by (auto simp: xs)
    next
      case (Cons r rs')
      show ?thesis
      proof (cases "is_object r")
        case False
        then show ?thesis
          using True Cons Cons.prems by (auto simp: xs entry_get_not_object)
      next
        case obj: True
        have x': "same_but_ai mc t (assign_entry r x)"
          using True x by (simp add: same_but_ai_def tag_fallback_assign)
        obtain ys where
          "snd (apply_pairs (zip (miss_positions mc (length (pre @ [assign_entry r x])) ts) rs')
                  ((pre @ [assign_entry r x]) @ xs')) = (pre @ [assign_entry r x]) @ ys"
          and "list_all2 (same_but_ai mc) ts ys"
          using Cons.IH [OF rest] by blast
        then show ?thesis
          using True Cons obj x'
          by (auto simp: xs entry_get_object update_at_length assign_entry_steps)
      qed
    qed
  qed
qed

lemma tag_fallback_idem: "tag_fallback (tag_fallback t) = tag_fallback t"
  by (simp add: tag_fallback_def)

lemma fallback_all_eq:
  "list_all2 (same_but_ai mc) ts xs \<Longrightarrow>
   fallback_all (miss_positions mc (length pre) ts) (pre @ xs)
     = pre @ map (tag_hit_or_fallback mc) ts"
proof (induction ts arbitrary: pre xs)
  case Nil
  then show ?case by (simp add: fallback_all_def)
next
  case (Cons t ts)
  then obtain x xs' where xs: "xs = x # xs'" and x: "same_but_ai mc t x"
    and rest: "list_all2 (same_but_ai mc) ts xs'"
    by (auto simp: list_all2_Cons1)
  show ?case
  proof (cases "cache_miss mc t")
    case False
    then obtain c where c: "cached_entry mc t = Some c"
      by (auto simp: cache_miss_def)
    have "fallback_all (miss_positions mc (length (pre @ [x])) ts) ((pre @ [x]) @ xs')
            = (pre @ [x]) @ map (tag_hit_or_fallback mc) ts"
      using rest by (rule Cons.IH)
    moreover have "x = tag_hit_or_fallback mc t"
      using x False c by (simp add: same_but_ai_def tag_hit_or_fallback_def tag_hit_def)
    ultimately show ?thesis
      using False by (simp add: xs)
  next
    case True
    then have n: "cached_entry mc t = None" by (simp add: cache_miss_def)
    have "fallback_all (miss_positions mc (length (pre @ [tag_fallback x])) ts)
            ((pre @ [tag_fallback x]) @ xs')
            = (pre @ [tag_fallback x]) @ map (tag_hit_or_fallback mc) ts"
      using rest by (rule Cons.IH)
    moreover have "tag_fallback x = tag_hit_or_fallback mc t"
      using x True n by (simp add: same_but_ai_def tag_hit_or_fallback_def)
    ultimately show ?thesis
      using True by (simp add: xs fallback_all_def update_at_length)
  qed
qed

lemma same_but_ai_map: "list_all2 (same_but_ai mc) ts (map (tag_hit mc) ts)"
  by (simp add: list_all2_conv_all_nth same_but_ai_tag_hit)

lemma uncached_transactions_eq:
  "map (\<lambda>j. (pre @ map (tag_hit mc) ts) ! j) (miss_positions mc (length pre) ts)
     = filter (cache_miss mc) ts"
proof (induction ts arbitrary: pre)
  case Nil
  then show ?case by simp
next
  case (Cons t ts)
  have "map (\<lambda>j. ((pre @ [tag_hit mc t]) @ map (tag_hit mc) ts) ! j)
          (miss_positions mc (length (pre @ [tag_hit mc t])) ts) = filter (cache_miss mc) ts"
    by (rule Cons.IH)
  then show ?case by (simp add: tag_hit_miss nth_append)
qed


lemma length_annotate: "length (annotate mc rs ts) = length ts"
  by (induction ts arbitrary: rs) (auto split: option.splits list.splits)

lemma miss_rank_0: "miss_rank mc ts 0 = 0"
  by (simp add: miss_rank_def)

lemma miss_rank_Suc:
  "miss_rank mc (t # ts) (Suc i) = (if cache_miss mc t then Suc (miss_rank mc ts i) else miss_rank mc ts i)"
  by (simp add: miss_rank_def)

lemma annotate_nth:
  "i < length ts \<Longrightarrow>
   annotate mc rs ts ! i =
     (case cached_entry mc (ts ! i) of
        Some cached \<Rightarrow> tag_cached cached (ts ! i)
      | None \<Rightarrow> if miss_rank mc ts i < length rs
                then assign_entry (rs ! miss_rank mc ts i) (ts ! i) else ts ! i)"
proof (induction ts arbitrary: rs i)
  case Nil
  then show ?case by simp
next
  case (Cons t ts)
  show ?case
  proof (cases i)
    case 0
    then show ?thesis
      by (auto simp: miss_rank_0 split: option.splits list.splits)
  next
    case (Suc k)
    with Cons.prems have k: "k < length ts" by simp
    show ?thesis
    proof (cases "cached_entry mc t")
      case None
      then have m: "cache_miss mc t" by (simp add: cache_miss_def)
      show ?thesis
      proof (cases rs)
        case Nil
        then show ?thesis
          using None Suc k by (simp add: Cons.IH miss_rank_Suc m split: option.splits)
      next
        case (Cons r rs')
        then show ?thesis
          using None Suc k by (simp add: Cons.IH miss_rank_Suc m split: option.splits)
      qed
    next
      case (Some c)
      then have m: "\<not> cache_miss mc t" by (simp add: cache_miss_def)
      show ?thesis
        using Some Suc k by (simp add: Cons.IH miss_rank_Suc m split: option.splits)
    qed
  qed
qed

lemma classify_eq:
  "classify rt client req (miss_positions mc 0 ts) (map (tag_hit mc) ts) =
     (case client req of
        None \<Rightarrow> map (tag_hit_or_fallback mc) ts
      | Some response_text \<Rightarrow>
          (case search_json_array (strip response_text) of
             None \<Rightarrow> map (tag_hit mc) ts
           | Some json_match \<Rightarrow>
               (case json_loads rt json_match of
                  None \<Rightarrow> map (tag_hit_or_fallback mc) ts
                | Some results \<Rightarrow>
                    (case py_iter results of
                       Inl e \<Rightarrow> map (tag_hit_or_fallback mc) ts
                     | Inr rs \<Rightarrow>
                         if list_all is_object (take (length (filter (cache_miss mc) ts)) rs)
                         then annotate mc rs ts
                         else map (tag_hit_or_fallback mc) ts))))"
proof -
  have fb: "fallback_all (miss_positions mc 0 ts) (map (tag_hit mc) ts)
              = map (tag_hit_or_fallback mc) ts"
    using fallback_all_eq [where pre = "[]", OF same_but_ai_map] by simp
  have loop: "(case apply_results (miss_positions mc 0 ts) 0 rs (map (tag_hit mc) ts) of
                 (Some e, ts') \<Rightarrow> fallback_all (miss_positions mc 0 ts) ts'
               | (None, ts') \<Rightarrow> ts') =
              (if list_all is_object (take (length (filter (cache_miss mc) ts)) rs)
               then annotate mc rs ts else map (tag_hit_or_fallback mc) ts)" for rs
  proof (cases "list_all is_object (take (length (filter (cache_miss mc) ts)) rs)")
    case True
    then show ?thesis
      using apply_pairs_success [of mc ts rs "[]"] by (simp add: apply_results_pairs)
  next
    case False
    let ?r = "apply_pairs (zip (miss_positions mc 0 ts) rs) (map (tag_hit mc) ts)"
    obtain ys where ys: "snd ?r = ys" "list_all2 (same_but_ai mc) ts ys"
      using apply_pairs_shape [where pre = "[]" and rs = rs, OF same_but_ai_map] by auto
    have "fst ?r \<noteq> None"
      using False apply_pairs_raises [of "zip (miss_positions mc 0 ts) rs" "map (tag_hit mc) ts"]
      by (simp add: snd_zip_miss_positions)
    then obtain e where "?r = (Some e, ys)"
      using ys(1) by (cases ?r) auto
    moreover have "fallback_all (miss_positions mc 0 ts) ys = map (tag_hit_or_fallback mc) ts"
      using fallback_all_eq [where pre = "[]", OF ys(2)] by simp
    ultimately show ?thesis
      using False by (simp add: apply_results_pairs)
  qed
  show ?thesis
    unfolding classify_def
    by (simp add: fb loop split: option.splits sum.splits)
qed

lemma categorize_transactions_batch_eq:
  "categorize_transactions_batch rt client mc ts categories =
     Inr (if filter (cache_miss mc) ts = [] then ([], map (tag_hit mc) ts)
          else ([build_request categories (filter (cache_miss mc) ts)],
                classify rt client (build_request categories (filter (cache_miss mc) ts))
                  (miss_positions mc 0 ts) (map (tag_hit mc) ts)))"
proof -
  have "(miss_positions mc 0 ts = []) = (filter (cache_miss mc) ts = [])"
    using length_miss_positions [of mc 0 ts] by (metis length_0_conv)
  moreover have "map (\<lambda>j. map (tag_hit mc) ts ! j) (miss_positions mc 0 ts)
                   = filter (cache_miss mc) ts"
    using uncached_transactions_eq [of "[]" mc ts] by simp
  ultimately show ?thesis
    by (simp add: categorize_transactions_batch_def partition_cached_eq Let_def)
qed

lemma hit_after_classify:
  assumes "i < length ts" and "cached_entry mc (ts ! i) = Some cached"
  shows "map (tag_hit mc) ts ! i = tag_cached cached (ts ! i)"
    and "map (tag_hit_or_fallback mc) ts ! i = tag_cached cached (ts ! i)"
    and "annotate mc rs ts ! i = tag_cached cached (ts ! i)"
  using assms by (simp_all add: tag_hit_hit tag_hit_or_fallback_def annotate_nth)

lemma classify_length:
  "length (classify rt client req (miss_positions mc 0 ts) (map (tag_hit mc) ts)) = length ts"
  by (simp add: classify_eq length_annotate split: option.splits sum.splits)

lemma classify_hit:
  assumes "i < length ts" and "cached_entry mc (ts ! i) = Some cached"
  shows "classify rt client req (miss_positions mc 0 ts) (map (tag_hit mc) ts) ! i
           = tag_cached cached (ts ! i)"
  using hit_after_classify [OF assms]
  by (simp add: classify_eq split: option.splits sum.splits)

text \<open>
  Claim C3. The batch categorization always returns. Every transaction whose normalized,
  lower-cased merchant key is in the merchant cache comes back with
  \<open>ai_suggested_code\<close> set to the cached category code, \<open>ai_confidence = 'high'\<close> and
  \<open>ai_from_cache = True\<close>. At most one request is sent to the classifier, its
  transaction list is built from the cache misses only, and when no transaction is a
  cache miss no request is sent at all.
\<close>

theorem cache_hits_tagged_and_not_sent:
  "\<exists>calls out.
     categorize_transactions_batch rt client mc ts categories = Inr (calls, out)
     \<and> length out = length ts
     \<and> (\<forall>i<length ts. \<forall>k cached.
           merchant_key (description (ts ! i)) = Inr k \<and> map_of mc k = Some cached \<longrightarrow>
           out ! i = (ts ! i)\<lparr>ai_suggested_code := Some (m_category_code cached),
                               ai_confidence := Some (JStr ''high''),
                               ai_from_cache := Some (JBool True)\<rparr>)
     \<and> (\<forall>req\<in>set calls. req = build_request categories (filter (cache_miss mc) ts))
     \<and> length calls \<le> 1
     \<and> ((\<forall>t\<in>set ts. \<not> cache_miss mc t) \<longrightarrow> calls = [])"
proof -
  let ?req = "build_request categories (filter (cache_miss mc) ts)"
  let ?out = "classify rt client ?req (miss_positions mc 0 ts) (map (tag_hit mc) ts)"
  have hit: "cached_entry mc (ts ! i) = Some cached"
    if "merchant_key (description (ts ! i)) = Inr k \<and> map_of mc k = Some cached" for i k cached
    using that by (simp add: cached_entry_def)
  show ?thesis
  proof (cases "filter (cache_miss mc) ts = []")
    case True
    then have "categorize_transactions_batch rt client mc ts categories
                 = Inr ([], map (tag_hit mc) ts)"
      by (simp add: categorize_transactions_batch_eq)
    moreover have "\<forall>i<length ts. \<forall>k cached.
           merchant_key (description (ts ! i)) = Inr k \<and> map_of mc k = Some cached \<longrightarrow>
           map (tag_hit mc) ts ! i = (ts ! i)\<lparr>ai_suggested_code := Some (m_category_code cached),
                               ai_confidence := Some (JStr ''high''),
                               ai_from_cache := Some (JBool True)\<rparr>"
      using hit hit_after_classify(1) by (auto simp: tag_cached_def)
    ultimately show ?thesis by simp
  next
    case False
    then have "categorize_transactions_batch rt client mc ts categories = Inr ([?req], ?out)"
      by (simp add: categorize_transactions_batch_eq)
    moreover have "\<forall>i<length ts. \<forall>k cached.
           merchant_key (description (ts ! i)) = Inr k \<and> map_of mc k = Some cached \<longrightarrow>
           ?out ! i = (ts ! i)\<lparr>ai_suggested_code := Some (m_category_code cached),
                               ai_confidence := Some (JStr ''high''),
                               ai_from_cache := Some (JBool True)\<rparr>"
      using hit classify_hit by (auto simp: tag_cached_def)
    moreover have "\<not> (\<forall>t\<in>set ts. \<not> cache_miss mc t)"
      using False by (auto simp: filter_empty_conv)
    ultimately show ?thesis by (simp add: classify_length)
  qed
qed

theorem cache_hits_tagged_and_not_sent_witness:
  "\<exists>calls out.
     categorize_transactions_batch example_runtime (\<lambda>req. None) example_cache
       [coles_tx, uber_tx] [] = Inr (calls, out)
     \<and> out ! 0 = coles_tx\<lparr>ai_suggested_code := Some (JStr ''100''),
                           ai_confidence := Some (JStr ''high''),
                           ai_from_cache := Some (JBool True)\<rparr>
     \<and> calls = [build_request [] [uber_tx]]"
proof -
  have k: "merchant_key (description ([coles_tx, uber_tx] ! 0)) = Inr ''coles''"
    by code_simp
  have m: "map_of example_cache ''coles'' = Some \<lparr>m_category_code = JStr ''100'',
             m_confidence = ''high'', m_learned_from = ''2024-01-02_31.0_1234''\<rparr>"
    by (simp add: example_cache_def)
  have f: "filter (cache_miss example_cache) [coles_tx, uber_tx] = [uber_tx]"
    by code_simp
  have c: "categorize_transactions_batch example_runtime (\<lambda>req. None) example_cache
       [coles_tx, uber_tx] [] = Inr ([build_request [] [uber_tx]], [tag_cached (the (map_of example_cache ''coles'')) coles_tx, tag_fallback uber_tx])"
    by code_simp
  from cache_hits_tagged_and_not_sent
         [of example_runtime "\<lambda>req. None" example_cache "[coles_tx, uber_tx]" "[]"]
  obtain calls out where
    r: "categorize_transactions_batch example_runtime (\<lambda>req. None) example_cache
          [coles_tx, uber_tx] [] = Inr (calls, out)"
    and h: "\<forall>i<length [coles_tx, uber_tx]. \<forall>k cached.
           merchant_key (description ([coles_tx, uber_tx] ! i)) = Inr k \<and>
           map_of example_cache k = Some cached \<longrightarrow>
           out ! i = ([coles_tx, uber_tx] ! i)\<lparr>ai_suggested_code := Some (m_category_code cached),
                               ai_confidence := Some (JStr ''high''),
                               ai_from_cache := Some (JBool True)\<rparr>"
    and q: "\<forall>req\<in>set calls. req = build_request [] (filter (cache_miss example_cache) [coles_tx, uber_tx])"
    by blast
  from h k m have "out ! 0 = coles_tx\<lparr>ai_suggested_code := Some (JStr ''100''),
                           ai_confidence := Some (JStr ''high''),
                           ai_from_cache := Some (JBool True)\<rparr>"
    by force
  moreover have "calls = [build_request [] [uber_tx]]"
    using r c by simp
  ultimately show ?thesis using r by blast
qed

text \<open>
  The \<open>except\<close> branch: when the call raises, or \<open>json.loads\<close> raises, or the decoded
  value cannot be iterated, every cache miss receives the default code at low
  confidence.
\<close>

lemma classifier_exception_falls_back:
  assumes "client (build_request categories (filter (cache_miss mc) ts)) = None
           \<or> (\<exists>response_text json_match.
                 client (build_request categories (filter (cache_miss mc) ts)) = Some response_text
                 \<and> search_json_array (strip response_text) = Some json_match
                 \<and> json_loads rt json_match = None)"
  shows "\<exists>calls. categorize_transactions_batch rt client mc ts categories
                   = Inr (calls, map (tag_hit_or_fallback mc) ts)"
proof (cases "filter (cache_miss mc) ts = []")
  case True
  then have "\<forall>t\<in>set ts. \<not> cache_miss mc t"
    by (auto simp: filter_empty_conv)
  then have "map (tag_hit_or_fallback mc) ts = map (tag_hit mc) ts"
    by (auto simp: tag_hit_or_fallback_def tag_hit_def cache_miss_def split: option.splits)
  then show ?thesis
    using True by (simp add: categorize_transactions_batch_eq)
next
  case False
  then show ?thesis
    using assms by (auto simp: categorize_transactions_batch_eq classify_eq)
qed

text \<open>
  Claim C1, at the input where the code departs from it. The classifier answers with a
  text that holds no bracketed array. The call returns the batch, one request was sent,
  and the cache miss has none of its \<open>ai_*\<close> fields set: the \<open>if json_match\<close> has no
  \<open>else\<close>, and nothing was raised that would reach the fallback loop.
\<close>

theorem no_array_in_response_skips_fallback:
  "categorize_transactions_batch example_runtime
     (\<lambda>req. Some ''I cannot categorize these transactions.'') example_cache
     [coles_tx, uber_tx] []
   = Inr ([build_request [] [uber_tx]],
          [coles_tx\<lparr>ai_suggested_code := Some (JStr ''100''),
                     ai_confidence := Some (JStr ''high''),
                     ai_from_cache := Some (JBool True)\<rparr>,
           uber_tx])
   \<and> ai_suggested_code uber_tx = None \<and> ai_confidence uber_tx = None
   \<and> ai_from_cache uber_tx = None"
  by code_simp

text \<open>
  Claim C7 as stated fails on two inputs. An entry \<open>{}\<close>, which lacks both fields, is
  not skipped: the transaction receives the default code \<open>'500'\<close> at \<open>'low'\<close>. An
  entry that is not an object (\<open>1\<close>) raises \<open>AttributeError\<close> inside the \<open>try\<close>, and
  every cache miss of the batch receives the fallback, the one with the malformed entry
  included.
\<close>

theorem malformed_entries_counterexample:
  "categorize_transactions_batch example_runtime (\<lambda>req. Some ''[{}]'') []
     [uber_tx, myki_tx] []
   = Inr ([build_request [] [uber_tx, myki_tx]],
          [uber_tx\<lparr>ai_suggested_code := Some (JStr ''500''),
                    ai_confidence := Some (JStr ''low''),
                    ai_from_cache := Some (JBool False)\<rparr>,
           myki_tx])
   \<and> categorize_transactions_batch example_runtime (\<lambda>req. Some ''[1, {}]'') []
     [uber_tx, myki_tx] []
   = Inr ([build_request [] [uber_tx, myki_tx]],
          [uber_tx\<lparr>ai_suggested_code := Some (JStr ''500''),
                    ai_confidence := Some (JStr ''low''),
                    ai_from_cache := Some (JBool False)\<rparr>,
           myki_tx\<lparr>ai_suggested_code := Some (JStr ''500''),
                    ai_confidence := Some (JStr ''low''),
                    ai_from_cache := Some (JBool False)\<rparr>])"
  by code_simp

text \<open>
  Claim C7, amended. A response that decodes to a list never makes the batch raise.
  Entries are matched with the cache misses by their position in the list; the ordinal
  echoed in an entry is not read. When every entry that has a cache miss to go with is
  an object, the miss at ordinal \<open>k\<close> (from 0) receives the entry's \<open>category_code\<close>
  and \<open>confidence\<close>, with \<open>'500'\<close> and \<open>'low'\<close> for a field the entry lacks, and a
  miss beyond the end of the list keeps its \<open>ai_*\<close> fields as they were; entries beyond
  the number of misses are ignored. When one of those entries is not an object, every
  cache miss receives \<open>'500'\<close> at \<open>'low'\<close>.
\<close>

theorem response_entries_matched_by_position:
  assumes "client (build_request categories (filter (cache_miss mc) ts)) = Some response_text"
    and "search_json_array (strip response_text) = Some json_match"
    and "json_loads rt json_match = Some (JArr rs)"
  shows "\<exists>calls out.
     categorize_transactions_batch rt client mc ts categories = Inr (calls, out)
     \<and> length out = length ts
     \<and> (\<forall>i<length ts. cache_miss mc (ts ! i) \<longrightarrow>
           out ! i =
             (if list_all is_object (take (length (filter (cache_miss mc) ts)) rs)
              then (if miss_rank mc ts i < length rs
                    then (ts ! i)
                           \<lparr>ai_suggested_code :=
                              Some (field_or (rs ! miss_rank mc ts i) ''category_code'' (JStr ''500'')),
                            ai_confidence :=
                              Some (field_or (rs ! miss_rank mc ts i) ''confidence'' (JStr ''low'')),
                            ai_from_cache := Some (JBool False)\<rparr>
                    else ts ! i)
              else (ts ! i)\<lparr>ai_suggested_code := Some (JStr ''500''),
                             ai_confidence := Some (JStr ''low''),
                             ai_from_cache := Some (JBool False)\<rparr>))"
proof (cases "filter (cache_miss mc) ts = []")
  case True
  then have "\<forall>t\<in>set ts. \<not> cache_miss mc t"
    by (auto simp: filter_empty_conv)
  then have "\<forall>i<length ts. \<not> cache_miss mc (ts ! i)" by simp
  then show ?thesis
    using True by (simp add: categorize_transactions_batch_eq)
next
  case False
  let ?req = "build_request categories (filter (cache_miss mc) ts)"
  let ?out = "classify rt client ?req (miss_positions mc 0 ts) (map (tag_hit mc) ts)"
  have c: "categorize_transactions_batch rt client mc ts categories = Inr ([?req], ?out)"
    using False by (simp add: categorize_transactions_batch_eq)
  have out: "?out = (if list_all is_object (take (length (filter (cache_miss mc) ts)) rs)
                     then annotate mc rs ts else map (tag_hit_or_fallback mc) ts)"
    using assms by (simp add: classify_eq)
  have "?out ! i =
             (if list_all is_object (take (length (filter (cache_miss mc) ts)) rs)
              then (if miss_rank mc ts i < length rs
                    then assign_entry (rs ! miss_rank mc ts i) (ts ! i) else ts ! i)
              else tag_fallback (ts ! i))"
    if "i < length ts" "cache_miss mc (ts ! i)" for i
    using that by (simp add: out annotate_nth tag_hit_or_fallback_def cache_miss_def)
  then show ?thesis
    using c by (simp add: classify_length assign_entry_def tag_fallback_def)
qed

theorem response_entries_matched_by_position_witness:
  "\<exists>calls out.
     categorize_transactions_batch example_runtime (\<lambda>req. Some ''Here: [{}] '') example_cache
       [coles_tx, uber_tx, myki_tx] [] = Inr (calls, out)
     \<and> out ! 1 = uber_tx\<lparr>ai_suggested_code := Some (JStr ''500''),
                          ai_confidence := Some (JStr ''low''),
                          ai_from_cache := Some (JBool False)\<rparr>
     \<and> out ! 2 = myki_tx"
proof -
  let ?ts = "[coles_tx, uber_tx, myki_tx]"
  have 1: "(\<lambda>req. Some ''Here: [{}] '') (build_request [] (filter (cache_miss example_cache) ?ts))
             = Some ''Here: [{}] ''"
    by simp
  have 2: "search_json_array (strip ''Here: [{}] '') = Some ''[{}]''"
    by code_simp
  have 3: "json_loads example_runtime ''[{}]'' = Some (JArr [JObj []])"
    by (simp add: example_runtime_def)
  have m: "cache_miss example_cache (?ts ! 1)" "cache_miss example_cache (?ts ! 2)"
    by code_simp+
  have r: "miss_rank example_cache ?ts 1 = 0" "miss_rank example_cache ?ts 2 = 1"
    by code_simp+
  have f: "length (filter (cache_miss example_cache) ?ts) = 2"
    by code_simp
  from response_entries_matched_by_position [OF 1 2 3]
  obtain calls out where
    c: "categorize_transactions_batch example_runtime (\<lambda>req. Some ''Here: [{}] '')
          example_cache ?ts [] = Inr (calls, out)"
    and h: "\<forall>i<length ?ts. cache_miss example_cache (?ts ! i) \<longrightarrow>
           out ! i =
             (if list_all is_object (take (length (filter (cache_miss example_cache) ?ts)) [JObj []])
              then (if miss_rank example_cache ?ts i < length [JObj []]
                    then (?ts ! i)
                           \<lparr>ai_suggested_code :=
                              Some (field_or ([JObj []] ! miss_rank example_cache ?ts i) ''category_code'' (JStr ''500'')),
                            ai_confidence :=
                              Some (field_or ([JObj []] ! miss_rank example_cache ?ts i) ''confidence'' (JStr ''low'')),
                            ai_from_cache := Some (JBool False)\<rparr>
                    else ?ts ! i)
              else (?ts ! i)\<lparr>ai_suggested_code := Some (JStr ''500''),
                             ai_confidence := Some (JStr ''low''),
                             ai_from_cache := Some (JBool False)\<rparr>)"
    by blast
  have "out ! 1 = uber_tx\<lparr>ai_suggested_code := Some (JStr ''500''),
                          ai_confidence := Some (JStr ''low''),
                          ai_from_cache := Some (JBool False)\<rparr>"
    using h [rule_format, of 1] m(1) r(1) f
    by (simp add: field_or_def obj_get_def)
  moreover have "out ! 2 = myki_tx"
    using h [rule_format, of 2] m(2) r(2) f
    by (simp add: field_or_def obj_get_def)
  ultimately show ?thesis using c by blast
qed

section \<open>Properties of the reconciliation workflow\<close>

lemma key_of_eq: "merchant_key (description t) = Inr (key_of t)"
  by (simp add: key_of_def merchant_key_eq)

lemma accepts_code: "accepts t \<Longrightarrow> \<exists>code. ai_suggested_code t = Some code"
  by (cases "ai_suggested_code t") (simp_all add: accepts_def get_truthy_def)

lemma reconcile_all_loop_eq:
  "reconcile_all_loop mc n ts =
     Inr (map (\<lambda>t. if accepts t then accept t else t) ts,
          foldl learn_suggestion mc (filter accepts ts),
          n + length (filter accepts ts))"
proof (induction ts arbitrary: mc n)
  case Nil
  then show ?case by simp
next
  case (Cons t ts)
  show ?case
  proof (cases "accepts t")
    case True
    then obtain code where code: "ai_suggested_code t = Some code"
      using accepts_code by blast
    have a: "\<not> get_truthy (reconciled t) \<and> get_truthy (Some code)"
      using True code by (simp add: accepts_def)
    show ?thesis
      using True code a
      by (simp add: Cons.IH key_of_eq accept_def learn_suggestion_def learned_from_suggestion_def)
  next
    case False
    then have "\<not> (\<not> get_truthy (reconciled t) \<and> get_truthy (ai_suggested_code t))"
      by (simp add: accepts_def)
    then show ?thesis
      using False by (auto simp: Cons.IH)
  qed
qed

lemma map_of_learn_suggestions:
  "map_of (foldl learn_suggestion mc xs) k =
     (case find (\<lambda>t. key_of t = k) (rev xs) of
        Some t \<Rightarrow> Some (learned_from_suggestion t)
      | None \<Rightarrow> map_of mc k)"
proof (induction xs rule: rev_induct)
  case Nil
  then show ?case by simp
next
  case (snoc x xs)
  then show ?case
    by (simp add: learn_suggestion_def update_conv')
qed

text \<open>
  Claim C9 as stated fails where the suggestion is not null and yet false in Python's
  sense: the transaction below is unreconciled and carries the suggestion \<open>''\<close> (the
  classifier answered \<open>"category_code": ""\<close>). \<open>reconcile_all\<close> leaves it as it is
  and counts nothing.
\<close>

theorem reconcile_all_empty_suggestion_counterexample:
  "ai_suggested_code (uber_tx\<lparr>ai_suggested_code := Some (JStr '''')\<rparr>) = Some (JStr '''')
   \<and> reconciled (uber_tx\<lparr>ai_suggested_code := Some (JStr '''')\<rparr>) = Some (JBool False)
   \<and> reconcile_all \<lparr>transactions_file = [uber_tx\<lparr>ai_suggested_code := Some (JStr '''')\<rparr>],
                     merchant_cache_file = []\<rparr>
     = Inr (0, \<lparr>transactions_file = [uber_tx\<lparr>ai_suggested_code := Some (JStr '''')\<rparr>],
                 merchant_cache_file = []\<rparr>)"
  by code_simp

text \<open>
  Claim C9, amended: both tests are Python's truth value. \<open>reconcile_all\<close> always
  succeeds. A value is falsy when it is missing, null, \<open>False\<close>, zero, an empty string
  or an empty container, and truthy otherwise. Every transaction whose \<open>reconciled\<close>
  is falsy and whose \<open>ai_suggested_code\<close> is truthy receives the suggestion as
  \<open>category_code\<close> and \<open>reconciled = True\<close>; every other transaction (truthy
  \<open>reconciled\<close>, or falsy \<open>ai_suggested_code\<close>) is unchanged, and the order is kept.
  The answer counts exactly the transactions so changed. Each of them is learned under
  its merchant key with confidence \<open>'high'\<close> and its own id; when several share a key
  the last one in the list is what the cache holds afterwards, and the other keys of
  the cache keep their entries.
\<close>

theorem reconcile_all_accepts_suggestions:
  "\<exists>n st'.
     reconcile_all st = Inr (n, st')
     \<and> transactions_file st' =
         map (\<lambda>t. if \<not> get_truthy (reconciled t) \<and> get_truthy (ai_suggested_code t)
                  then t\<lparr>category_code := ai_suggested_code t, reconciled := Some (JBool True)\<rparr>
                  else t)
             (transactions_file st)
     \<and> n = length (filter (\<lambda>t. \<not> get_truthy (reconciled t) \<and> get_truthy (ai_suggested_code t))
                      (transactions_file st))
     \<and> (\<forall>k. map_of (merchant_cache_file st') k =
              (case find (\<lambda>t. merchant_key (description t) = Inr k)
                      (rev (filter (\<lambda>t. \<not> get_truthy (reconciled t) \<and> get_truthy (ai_suggested_code t))
                              (transactions_file st))) of
                 Some t \<Rightarrow> Some \<lparr>m_category_code = the (ai_suggested_code t),
                                  m_confidence = ''high'', m_learned_from = id' t\<rparr>
               | None \<Rightarrow> map_of (merchant_cache_file st) k))"
proof -
  let ?ts = "transactions_file st"
  have acc: "(\<lambda>t. \<not> get_truthy (reconciled t) \<and> get_truthy (ai_suggested_code t)) = accepts"
    by (simp add: accepts_def fun_eq_iff)
  have key: "(\<lambda>t. merchant_key (description t) = Inr k) = (\<lambda>t. key_of t = k)" for k
    by (simp add: key_of_eq fun_eq_iff)
  have r: "reconcile_all st =
             Inr (length (filter accepts ?ts),
                  \<lparr>transactions_file = map (\<lambda>t. if accepts t then accept t else t) ?ts,
                   merchant_cache_file = foldl learn_suggestion (merchant_cache_file st)
                                           (filter accepts ?ts)\<rparr>)"
    by (simp add: reconcile_all_def reconcile_all_loop_eq)
  have entry: "learned_from_suggestion t =
                 \<lparr>m_category_code = the (ai_suggested_code t),
                  m_confidence = ''high'', m_learned_from = id' t\<rparr>"
    if "accepts t" for t
    using accepts_code [OF that] by (auto simp: learned_from_suggestion_def learned_def)
  have "map_of (foldl learn_suggestion (merchant_cache_file st) (filter accepts ?ts)) k =
          (case find (\<lambda>t. key_of t = k) (rev (filter accepts ?ts)) of
             Some t \<Rightarrow> Some \<lparr>m_category_code = the (ai_suggested_code t),
                              m_confidence = ''high'', m_learned_from = id' t\<rparr>
           | None \<Rightarrow> map_of (merchant_cache_file st) k)" for k
  proof (cases "find (\<lambda>t. key_of t = k) (rev (filter accepts ?ts))")
    case None
    then show ?thesis by (simp add: map_of_learn_suggestions)
  next
    case (Some t)
    then obtain i where "i < length (rev (filter accepts ?ts))"
      and "t = rev (filter accepts ?ts) ! i"
      unfolding find_Some_iff by blast
    then have "t \<in> set (rev (filter accepts ?ts))"
      using nth_mem by blast
    then have "accepts t" by simp
    then show ?thesis
      using Some by (simp add: map_of_learn_suggestions entry)
  qed
  note cache = this
  have m: "map (\<lambda>t. if accepts t then accept t else t) ?ts =
           map (\<lambda>t. if \<not> get_truthy (reconciled t) \<and> get_truthy (ai_suggested_code t)
                  then t\<lparr>category_code := ai_suggested_code t, reconciled := Some (JBool True)\<rparr>
                  else t) ?ts"
    by (simp add: accepts_def accept_def)
  show ?thesis
    unfolding acc key r by (simp add: cache m)
qed

theorem reconcile_all_accepts_suggestions_witness:
  "\<exists>n st'.
     reconcile_all \<lparr>transactions_file =
                      [coles_tx\<lparr>ai_suggested_code := Some (JStr ''100'')\<rparr>, myki_tx],
                    merchant_cache_file = []\<rparr> = Inr (n, st')
     \<and> n = 1
     \<and> transactions_file st' =
         [coles_tx\<lparr>ai_suggested_code := Some (JStr ''100''),
                    category_code := Some (JStr ''100''), reconciled := Some (JBool True)\<rparr>,
          myki_tx]
     \<and> map_of (merchant_cache_file st') ''coles'' =
         Some \<lparr>m_category_code = JStr ''100'', m_confidence = ''high'',
                m_learned_from = ''2024-01-15_4.5_21''\<rparr>"
proof -
  let ?st = "\<lparr>transactions_file =
                      [coles_tx\<lparr>ai_suggested_code := Some (JStr ''100'')\<rparr>, myki_tx],
                    merchant_cache_file = []\<rparr>"
  have k: "merchant_key (description (coles_tx\<lparr>ai_suggested_code := Some (JStr ''100'')\<rparr>)) = Inr ''coles''"
           "merchant_key (description myki_tx) = Inr ''myki''"
    by code_simp+
  have f: "get_truthy (reconciled (coles_tx\<lparr>ai_suggested_code := Some (JStr ''100'')\<rparr>)) = False"
          "get_truthy (ai_suggested_code (coles_tx\<lparr>ai_suggested_code := Some (JStr ''100'')\<rparr>)) = True"
          "get_truthy (ai_suggested_code myki_tx) = False"
    by code_simp+
  have i: "id' coles_tx = ''2024-01-15_4.5_21''"
    by code_simp
  from reconcile_all_accepts_suggestions [of ?st]
  obtain n st' where r: "reconcile_all ?st = Inr (n, st')"
    and t: "transactions_file st' =
         map (\<lambda>t. if \<not> get_truthy (reconciled t) \<and> get_truthy (ai_suggested_code t)
                  then t\<lparr>category_code := ai_suggested_code t, reconciled := Some (JBool True)\<rparr>
                  else t)
             (transactions_file ?st)"
    and n: "n = length (filter (\<lambda>t. \<not> get_truthy (reconciled t) \<and> get_truthy (ai_suggested_code t))
                      (transactions_file ?st))"
    and c: "\<forall>k. map_of (merchant_cache_file st') k =
              (case find (\<lambda>t. merchant_key (description t) = Inr k)
                      (rev (filter (\<lambda>t. \<not> get_truthy (reconciled t) \<and> get_truthy (ai_suggested_code t))
                              (transactions_file ?st))) of
                 Some t \<Rightarrow> Some \<lparr>m_category_code = the (ai_suggested_code t),
                                  m_confidence = ''high'', m_learned_from = id' t\<rparr>
               | None \<Rightarrow> map_of (merchant_cache_file ?st) k)"
    by blast
  have "n = 1" using n f by simp
  moreover have "transactions_file st' =
         [coles_tx\<lparr>ai_suggested_code := Some (JStr ''100''),
                    category_code := Some (JStr ''100''), reconciled := Some (JBool True)\<rparr>,
          myki_tx]"
    using t f by simp
  moreover have "map_of (merchant_cache_file st') ''coles'' =
         Some \<lparr>m_category_code = JStr ''100'', m_confidence = ''high'',
                m_learned_from = ''2024-01-15_4.5_21''\<rparr>"
    using c [rule_format, of "''coles''"] f k i by simp
  ultimately show ?thesis using r by blast
qed

section \<open>Properties of the import\<close>

lemma read_rows_eq:
  "read_rows rt existing_ids rows =
     (if \<exists>row\<in>set rows. bad_row rt row then Inl ValueError
      else Inr (map (row_transaction rt) (filter (imported_row rt existing_ids) rows)))"
proof (induction rows)
  case Nil
  then show ?case by simp
next
  case (Cons row rows)
  show ?case
  proof (cases "3 \<le> length row")
    case False
    then have "\<not> bad_row rt row" and "\<not> imported_row rt existing_ids row"
      by (simp_all add: bad_row_def imported_row_def)
    then show ?thesis
      using False Cons.IH by simp
  next
    case True
    show ?thesis
    proof (cases "row_amount rt row")
      case None
      then show ?thesis
        using True by (simp add: bad_row_def row_amount_def Let_def)
    next
      case (Some a)
      then have nb: "\<not> bad_row rt row" by (simp add: bad_row_def)
      have a: "py_float rt (filter (\<lambda>c. c \<noteq> CHR 0x22 \<and> c \<noteq> CHR '','') (row ! Suc 0)) = Some a"
        using Some by (simp add: row_amount_def)
      have d: "(case strptime_dmy rt (row ! 0) of Some d \<Rightarrow> d | None \<Rightarrow> row ! 0) = row_date rt row"
        by (simp add: row_date_def)
      have i: "trans_id_of rt (row_date rt row) a (row ! 2) = row_id rt row"
        using Some by (simp add: row_id_def)
      have t: "new_transaction (row_id rt row) (row_date rt row) a (strip (row ! 2))
                 = row_transaction rt row"
        using Some by (simp add: row_transaction_def)
      have ir: "imported_row rt existing_ids row = (row_id rt row \<notin> set existing_ids)"
        using True by (simp add: imported_row_def)
      show ?thesis
        using True nb Cons.IH
        by (simp add: a d i t Let_def ir)
    qed
  qed
qed

lemma without_ai_tags:
  "without_ai (tag_cached c t) = without_ai t"
  "without_ai (tag_fallback t) = without_ai t"
  "without_ai (assign_entry r t) = without_ai t"
  by (simp_all add: without_ai_def tag_cached_def tag_fallback_def assign_entry_def)

lemma without_ai_tag_hit: "without_ai (tag_hit mc t) = without_ai t"
  by (simp add: tag_hit_def without_ai_tags split: option.splits)

lemma without_ai_tag_hit_or_fallback: "without_ai (tag_hit_or_fallback mc t) = without_ai t"
  by (simp add: tag_hit_or_fallback_def without_ai_tags split: option.splits)

lemma without_ai_annotate: "map without_ai (annotate mc rs ts) = map without_ai ts"
  by (induction ts arbitrary: rs) (auto simp: without_ai_tags split: option.splits list.splits)

lemma categorize_only_ai:
  assumes "categorize_transactions_batch rt client mc ts categories = Inr (calls, out)"
  shows "map without_ai out = map without_ai ts"
proof -
  have "map without_ai (classify rt client req (miss_positions mc 0 ts) (map (tag_hit mc) ts))
          = map without_ai ts" for req
    by (simp add: classify_eq without_ai_annotate without_ai_tag_hit
          without_ai_tag_hit_or_fallback comp_def split: option.splits sum.splits)
  then show ?thesis
    using assms
    by (auto simp: categorize_transactions_batch_eq without_ai_tag_hit comp_def split: if_splits)
qed

lemma id_without_ai: "id' (without_ai t) = id' t"
  by (simp add: without_ai_def)

lemma reconciled_without_ai: "reconciled (without_ai t) = reconciled t"
  by (simp add: without_ai_def)

lemma categorize_ids:
  assumes "categorize_transactions_batch rt client mc ts categories = Inr (calls, out)"
  shows "map id' out = map id' ts"
proof -
  have "map id' (map without_ai out) = map id' (map without_ai ts)"
    using categorize_only_ai [OF assms] by simp
  then show ?thesis by (simp add: comp_def id_without_ai)
qed

lemma categorize_reconciled:
  assumes "categorize_transactions_batch rt client mc ts categories = Inr (calls, out)"
  shows "map reconciled out = map reconciled ts"
proof -
  have "map reconciled (map without_ai out) = map reconciled (map without_ai ts)"
    using categorize_only_ai [OF assms] by simp
  then show ?thesis by (simp add: comp_def reconciled_without_ai)
qed

lemma categorize_returns:
  "\<exists>calls out. categorize_transactions_batch rt client mc ts categories = Inr (calls, out)"
  by (simp add: categorize_transactions_batch_eq)

lemma mset_sort_by_date_desc: "mset (sort_by_date_desc ts) = mset ts"
  by (simp add: sort_by_date_desc_def)

lemma id_row_transaction: "id' (row_transaction rt row) = row_id rt row"
  by (simp add: row_transaction_def new_transaction_def)

text \<open>The three outcomes of an upload.\<close>

lemma upload_csv_cases:
  assumes "file = Some (filename, rows)" and "filename \<noteq> []"
  shows "(\<exists>row\<in>set rows. bad_row rt row) \<and>
           upload_csv rt client categories file st = (Inl (Http500 ValueError), [], st)
       \<or> (\<forall>row\<in>set rows. \<not> bad_row rt row) \<and>
           filter (imported_row rt (map id' (transactions_file st))) rows = [] \<and>
           upload_csv rt client categories file st = (Inr (0, transactions_file st), [], st)
       \<or> (\<forall>row\<in>set rows. \<not> bad_row rt row) \<and>
           filter (imported_row rt (map id' (transactions_file st))) rows \<noteq> [] \<and>
           (\<exists>calls out.
              map id' out = map (row_id rt)
                              (filter (imported_row rt (map id' (transactions_file st))) rows) \<and>
              map reconciled out = map (\<lambda>row. Some (JBool False))
                              (filter (imported_row rt (map id' (transactions_file st))) rows) \<and>
              upload_csv rt client categories file st =
                (Inr (length out, sort_by_date_desc (transactions_file st @ out)), calls,
                 st\<lparr>transactions_file := sort_by_date_desc (transactions_file st @ out)\<rparr>))"
proof (cases "\<exists>row\<in>set rows. bad_row rt row")
  case True
  then show ?thesis
    using assms by (simp add: upload_csv_def read_rows_eq)
next
  case False
  let ?rows = "filter (imported_row rt (map id' (transactions_file st))) rows"
  let ?new = "map (row_transaction rt) ?rows"
  show ?thesis
  proof (cases "?rows = []")
    case True
    then show ?thesis
      using assms False by (simp add: upload_csv_def read_rows_eq Let_def)
  next
    case ne: False
    obtain calls out where
      c: "categorize_transactions_batch rt client (merchant_cache_file st) ?new categories
            = Inr (calls, out)"
      using categorize_returns by blast
    have "map id' out = map (row_id rt) ?rows"
      using categorize_ids [OF c] by (simp add: comp_def id_row_transaction)
    moreover have "map reconciled out = map (\<lambda>row. Some (JBool False)) ?rows"
      using categorize_reconciled [OF c]
      by (simp add: comp_def row_transaction_def new_transaction_def)
    moreover have "upload_csv rt client categories file st =
                (Inr (length out, sort_by_date_desc (transactions_file st @ out)), calls,
                 st\<lparr>transactions_file := sort_by_date_desc (transactions_file st @ out)\<rparr>)"
      using assms False ne c by (simp add: upload_csv_def read_rows_eq Let_def)
    ultimately show ?thesis
      using False ne by blast
  qed
qed

lemma two_in_filter:
  assumes "i < j" and "j < length xs" and "P (xs ! i)" and "P (xs ! j)"
  shows "2 \<le> length (filter P xs)"
proof -
  have xs: "xs = take j xs @ xs ! j # drop (Suc j) xs"
    using assms(2) by (simp add: id_take_nth_drop)
  have "xs ! i \<in> set (take j xs)"
    using assms(1,2) by (auto simp: in_set_conv_nth intro!: exI [of _ i])
  then have "filter P (take j xs) \<noteq> []"
    using assms(3) by (auto simp: filter_empty_conv)
  then have "1 \<le> length (filter P (take j xs))"
    by (simp add: Suc_le_eq)
  moreover have "length (filter P xs) =
                 length (filter P (take j xs)) + length (filter P (xs ! j # drop (Suc j) xs))"
    by (subst xs) simp
  ultimately show ?thesis
    using assms(4) by simp
qed

lemma count_map_filter:
  "count (mset (map f (filter P xs))) x = length (filter (\<lambda>r. P r \<and> f r = x) xs)"
  by (induction xs) auto

lemma count_ge_2_not_distinct: "2 \<le> count (mset xs) x \<Longrightarrow> \<not> distinct xs"
  by (metis distinct_count_atmost_1 numeral_le_one_iff semiring_norm(69) le_zero_eq
        zero_neq_numeral)

text \<open>
  Claim C10. When \<open>float\<close> accepts every row that has three fields, the upload succeeds
  and imports one transaction for every such row whose identifier is not among the
  identifiers stored before the upload, whether or not an earlier row of the same file
  has the same identifier: the identifiers stored afterwards are the old ones together
  with one per imported row. So two rows of one file with the same new identifier
  leave (at least) two stored transactions with that identifier.
\<close>

theorem duplicate_rows_in_one_file_both_imported:
  assumes "filename \<noteq> []" and "\<forall>row\<in>set rows. \<not> bad_row rt row"
  shows "\<exists>n ts calls st'.
     upload_csv rt client categories (Some (filename, rows)) st = (Inr (n, ts), calls, st')
     \<and> n = length (filter (imported_row rt (map id' (transactions_file st))) rows)
     \<and> mset (map id' (transactions_file st')) =
         mset (map id' (transactions_file st)) +
         mset (map (row_id rt) (filter (imported_row rt (map id' (transactions_file st))) rows))
     \<and> (\<forall>i j. i < j \<and> j < length rows
             \<and> 3 \<le> length (rows ! i) \<and> 3 \<le> length (rows ! j)
             \<and> row_id rt (rows ! i) = row_id rt (rows ! j)
             \<and> row_id rt (rows ! i) \<notin> set (map id' (transactions_file st))
           \<longrightarrow> 2 \<le> count (mset (map id' (transactions_file st'))) (row_id rt (rows ! i))
               \<and> \<not> distinct (map id' (transactions_file st')))"
proof -
  let ?ids = "map id' (transactions_file st)"
  let ?rows = "filter (imported_row rt ?ids) rows"
  have dup: "2 \<le> count (mset ?ids + mset (map (row_id rt) ?rows)) (row_id rt (rows ! i))"
    if "i < j \<and> j < length rows
             \<and> 3 \<le> length (rows ! i) \<and> 3 \<le> length (rows ! j)
             \<and> row_id rt (rows ! i) = row_id rt (rows ! j)
             \<and> row_id rt (rows ! i) \<notin> set ?ids" for i j
  proof -
    let ?P = "\<lambda>r. imported_row rt ?ids r \<and> row_id rt r = row_id rt (rows ! i)"
    have "?P (rows ! i)" and "?P (rows ! j)"
      using that by (auto simp: imported_row_def)
    then have "2 \<le> length (filter ?P rows)"
      using that two_in_filter [of i j rows ?P] by blast
    moreover have "count (mset (map (row_id rt) ?rows)) (row_id rt (rows ! i))
                     = length (filter ?P rows)"
      by (rule count_map_filter)
    ultimately show ?thesis
      unfolding count_union by linarith
  qed
  from upload_csv_cases [of "Some (filename, rows)" filename rows rt client categories st] assms
  consider
    (none) "?rows = []"
      "upload_csv rt client categories (Some (filename, rows)) st
         = (Inr (0, transactions_file st), [], st)"
  | (some) calls out where "map id' out = map (row_id rt) ?rows"
      "upload_csv rt client categories (Some (filename, rows)) st =
         (Inr (length out, sort_by_date_desc (transactions_file st @ out)), calls,
          st\<lparr>transactions_file := sort_by_date_desc (transactions_file st @ out)\<rparr>)"
    by blast
  then show ?thesis
  proof cases
    case none
    have q: "\<forall>i j. i < j \<and> j < length rows
             \<and> 3 \<le> length (rows ! i) \<and> 3 \<le> length (rows ! j)
             \<and> row_id rt (rows ! i) = row_id rt (rows ! j)
             \<and> row_id rt (rows ! i) \<notin> set ?ids
           \<longrightarrow> 2 \<le> count (mset (map id' (transactions_file st))) (row_id rt (rows ! i))
               \<and> \<not> distinct (map id' (transactions_file st))"
    proof (intro allI impI)
      fix i j
      assume c: "i < j \<and> j < length rows
             \<and> 3 \<le> length (rows ! i) \<and> 3 \<le> length (rows ! j)
             \<and> row_id rt (rows ! i) = row_id rt (rows ! j)
             \<and> row_id rt (rows ! i) \<notin> set ?ids"
      have c2: "2 \<le> count (mset ?ids) (row_id rt (rows ! i))"
        using dup [OF c] by (simp only: none(1) list.map mset.simps add_0_right)
      then have "\<not> distinct ?ids"
        by (rule count_ge_2_not_distinct)
      with c2 show "2 \<le> count (mset ?ids) (row_id rt (rows ! i)) \<and> \<not> distinct ?ids"
        by (rule conjI)
    qed
    have n: "0 = length ?rows" by (simp only: none(1) list.size)
    have m: "mset ?ids = mset ?ids + mset (map (row_id rt) ?rows)"
      by (simp only: none(1) list.map mset.simps add_0_right)
    show ?thesis
      using none(2) n m q by blast
  next
    case some
    let ?new = "sort_by_date_desc (transactions_file st @ out)"
    let ?st' = "st\<lparr>transactions_file := ?new\<rparr>"
    have m: "mset (map id' (transactions_file ?st')) = mset ?ids + mset (map (row_id rt) ?rows)"
    proof -
      have "mset (map id' ?new) = image_mset id' (mset ?new)" by simp
      also have "\<dots> = image_mset id' (mset (transactions_file st @ out))"
        by (simp only: mset_sort_by_date_desc)
      also have "\<dots> = mset ?ids + mset (map id' out)" by simp
      finally show ?thesis by (simp add: some(1))
    qed
    have n: "length out = length ?rows"
      using some(1) by (metis length_map)
    have q: "\<forall>i j. i < j \<and> j < length rows
             \<and> 3 \<le> length (rows ! i) \<and> 3 \<le> length (rows ! j)
             \<and> row_id rt (rows ! i) = row_id rt (rows ! j)
             \<and> row_id rt (rows ! i) \<notin> set ?ids
           \<longrightarrow> 2 \<le> count (mset (map id' (transactions_file ?st'))) (row_id rt (rows ! i))
               \<and> \<not> distinct (map id' (transactions_file ?st'))"
    proof (intro allI impI)
      fix i j
      assume c: "i < j \<and> j < length rows
             \<and> 3 \<le> length (rows ! i) \<and> 3 \<le> length (rows ! j)
             \<and> row_id rt (rows ! i) = row_id rt (rows ! j)
             \<and> row_id rt (rows ! i) \<notin> set ?ids"
      have c2: "2 \<le> count (mset (map id' (transactions_file ?st'))) (row_id rt (rows ! i))"
        using dup [OF c] by (simp only: m)
      then have "\<not> distinct (map id' (transactions_file ?st'))"
        by (rule count_ge_2_not_distinct)
      with c2 show "2 \<le> count (mset (map id' (transactions_file ?st'))) (row_id rt (rows ! i))
                 \<and> \<not> distinct (map id' (transactions_file ?st'))"
        by (rule conjI)
    qed
    show ?thesis
      using some(2) n m q by blast
  qed
qed

theorem duplicate_rows_in_one_file_both_imported_witness:
  "\<exists>ts calls st'.
     upload_csv example_runtime (\<lambda>req. None) [] (Some (''statement.csv'', [myki_row, myki_row]))
       empty_store = (Inr (2, ts), calls, st')
     \<and> \<not> distinct (map id' (transactions_file st'))"
proof -
  let ?rows = "[myki_row, myki_row]"
  have f: "''statement.csv'' \<noteq> []" by simp
  have b: "\<forall>row\<in>set ?rows. \<not> bad_row example_runtime row"
    by code_simp
  have i: "row_id example_runtime myki_row = ''2024-01-15_4.5_4''"
    by code_simp
  have l: "length myki_row = 3"
    by (simp add: myki_row_def)
  have n: "length (filter (imported_row example_runtime (map id' (transactions_file empty_store)))
             ?rows) = 2"
    by (simp add: imported_row_def empty_store_def i l)
  have p: "(0::nat) < 1 \<and> 1 < length ?rows
             \<and> 3 \<le> length (?rows ! 0) \<and> 3 \<le> length (?rows ! 1)
             \<and> row_id example_runtime (?rows ! 0) = row_id example_runtime (?rows ! 1)
             \<and> row_id example_runtime (?rows ! 0) \<notin> set (map id' (transactions_file empty_store))"
    by (simp add: empty_store_def l)
  from duplicate_rows_in_one_file_both_imported
         [OF f b, of "\<lambda>req. None" "[]" empty_store]
  obtain m ts calls st' where
    u: "upload_csv example_runtime (\<lambda>req. None) [] (Some (''statement.csv'', ?rows)) empty_store
          = (Inr (m, ts), calls, st')"
    and m: "m = length (filter (imported_row example_runtime
                                 (map id' (transactions_file empty_store))) ?rows)"
    and d: "\<forall>i j. i < j \<and> j < length ?rows
             \<and> 3 \<le> length (?rows ! i) \<and> 3 \<le> length (?rows ! j)
             \<and> row_id example_runtime (?rows ! i) = row_id example_runtime (?rows ! j)
             \<and> row_id example_runtime (?rows ! i) \<notin> set (map id' (transactions_file empty_store))
           \<longrightarrow> 2 \<le> count (mset (map id' (transactions_file st'))) (row_id example_runtime (?rows ! i))
               \<and> \<not> distinct (map id' (transactions_file st'))"
    by blast
  have "\<not> distinct (map id' (transactions_file st'))"
    using d [rule_format, of 0 1] p by blast
  then show ?thesis
    using u m n by auto
qed

text \<open>
  Within one interpreter process, where \<open>hash\<close> is one function, a second upload of
  the same file finds every identifier in the store: it imports nothing, sends nothing
  to the classifier and leaves the store as the first upload left it.
\<close>

lemma upload_csv_twice_same_runtime:
  assumes first: "upload_csv rt client1 categories1 file st = (r1, calls1, st1)"
    and second: "upload_csv rt client2 categories2 file st1 = (r2, calls2, st2)"
  shows "st2 = st1 \<and> calls2 = [] \<and> (\<forall>n ts. r2 = Inr (n, ts) \<longrightarrow> n = 0 \<and> ts = transactions_file st1)"
proof (cases "file")
  case None
  then show ?thesis
    using first second by (auto simp: upload_csv_def)
next
  case (Some f)
  obtain filename rows where f: "f = (filename, rows)" by (cases f)
  show ?thesis
  proof (cases "filename = []")
    case True
    then show ?thesis
      using first second Some f by (auto simp: upload_csv_def)
  next
    case False
    have fl: "file = Some (filename, rows)" using Some f by simp
    let ?ids = "map id' (transactions_file st)"
    let ?rows = "filter (imported_row rt ?ids) rows"
    from upload_csv_cases [OF fl False, of rt client1 categories1 st] first
    consider
      (bad) "\<exists>row\<in>set rows. bad_row rt row" "st1 = st"
    | (none) "\<forall>row\<in>set rows. \<not> bad_row rt row" "?rows = []" "st1 = st"
    | (some) out where "\<forall>row\<in>set rows. \<not> bad_row rt row"
        "map id' out = map (row_id rt) ?rows"
        "st1 = st\<lparr>transactions_file := sort_by_date_desc (transactions_file st @ out)\<rparr>"
      by auto
    then show ?thesis
    proof cases
      case bad
      then show ?thesis
        using second fl False by (auto simp: upload_csv_def read_rows_eq)
    next
      case none
      then show ?thesis
        using second fl False by (auto simp: upload_csv_def read_rows_eq Let_def)
    next
      case some
      have ids1: "set (map id' (transactions_file st1)) = set ?ids \<union> row_id rt ` set ?rows"
      proof -
        have "set (map id' (transactions_file st1))
                = id' ` set_mset (mset (sort_by_date_desc (transactions_file st @ out)))"
          by (simp add: some(3))
        also have "\<dots> = id' ` set_mset (mset (transactions_file st @ out))"
          by (simp only: mset_sort_by_date_desc)
        also have "\<dots> = set ?ids \<union> set (map id' out)"
          by (simp add: image_Un)
        finally show ?thesis by (simp add: some(2))
      qed
      have "\<not> imported_row rt (map id' (transactions_file st1)) row" if "row \<in> set rows" for row
      proof (cases "3 \<le> length row \<and> row_id rt row \<notin> set ?ids")
        case True
        then have "row \<in> set ?rows"
          using that by (simp add: imported_row_def)
        then have "row_id rt row \<in> set (map id' (transactions_file st1))"
          unfolding ids1 by blast
        then show ?thesis by (simp add: imported_row_def)
      next
        case False
        then have "3 \<le> length row \<longrightarrow> row_id rt row \<in> set (map id' (transactions_file st1))"
          unfolding ids1 by blast
        then show ?thesis by (auto simp: imported_row_def)
      qed
      then have e: "filter (imported_row rt (map id' (transactions_file st1))) rows = []"
        by (simp add: filter_empty_conv)
      show ?thesis
        using second fl False some(1) e
        by (auto simp: upload_csv_def read_rows_eq Let_def)
    qed
  qed
qed

text \<open>
  Claim C5, at the input where the code departs from it. The identifier contains
  \<open>hash(description) % 10000\<close>, and the hash of a string is salted per interpreter
  process. The file with the one row \<open>15/01/2024,-4.50,MYKI\<close> is uploaded into the empty
  store; uploaded again in the same process it imports nothing; uploaded again after a
  restart, into the store that the first upload left, it is given another identifier
  and imported a second time.
\<close>

theorem reimport_after_restart_duplicates:
  "upload_csv example_runtime (\<lambda>req. None) [] (Some (''statement.csv'', [myki_row])) empty_store
     = (Inr (1, [tag_fallback myki_tx]), [build_request [] [myki_tx]],
        \<lparr>transactions_file = [tag_fallback myki_tx], merchant_cache_file = []\<rparr>)
   \<and> upload_csv example_runtime (\<lambda>req. None) [] (Some (''statement.csv'', [myki_row]))
       \<lparr>transactions_file = [tag_fallback myki_tx], merchant_cache_file = []\<rparr>
     = (Inr (0, [tag_fallback myki_tx]), [],
        \<lparr>transactions_file = [tag_fallback myki_tx], merchant_cache_file = []\<rparr>)
   \<and> upload_csv restarted_runtime (\<lambda>req. None) [] (Some (''statement.csv'', [myki_row]))
       \<lparr>transactions_file = [tag_fallback myki_tx], merchant_cache_file = []\<rparr>
     = (Inr (1, [tag_fallback myki_tx, tag_fallback (myki_tx\<lparr>id' := ''2024-01-15_4.5_7''\<rparr>)]),
        [build_request [] [myki_tx]],
        \<lparr>transactions_file =
           [tag_fallback myki_tx, tag_fallback (myki_tx\<lparr>id' := ''2024-01-15_4.5_7''\<rparr>)],
         merchant_cache_file = []\<rparr>)"
  by code_simp

section \<open>Properties of the aggregation\<close>





























text \<open>
  Claim C4, at the input where the code departs from it. The row is imported (its
  \<open>category_code\<close> is written as \<open>None\<close>), the transaction is then marked reconciled
  by an update that names no category, and the analysis is asked for the expenses while
  the category \<open>500\<close> (\<open>Other\<close>) exists. \<open>t.get('category_code', '500')\<close> finds the
  key, with the value \<open>None\<close>, so the default is not used: the transaction is grouped
  under the code \<open>None\<close>, which no category has, and the group is named \<open>Unknown\<close>.
\<close>

theorem null_category_grouped_as_unknown:
  "upload_csv example_runtime (\<lambda>req. None) [other_category]
     (Some (''statement.csv'', [myki_row])) empty_store
     = (Inr (1, [tag_fallback myki_tx]), [build_request [other_category] [myki_tx]],
        \<lparr>transactions_file = [tag_fallback myki_tx], merchant_cache_file = []\<rparr>)
   \<and> api_transaction ''2024-01-15_4.5_4'' [(''reconciled'', JBool True)]
       \<lparr>transactions_file = [tag_fallback myki_tx], merchant_cache_file = []\<rparr>
     = Inr \<lparr>transactions_file = [tag_fallback myki_tx\<lparr>reconciled := Some (JBool True)\<rparr>],
            merchant_cache_file = []\<rparr>
   \<and> category_code (tag_fallback myki_tx\<lparr>reconciled := Some (JBool True)\<rparr>) = Some JNull
   \<and> api_analysis example_runtime (Some ''expenses'') [other_category]
       \<lparr>transactions_file = [tag_fallback myki_tx\<lparr>reconciled := Some (JBool True)\<rparr>],
        merchant_cache_file = []\<rparr>
     = Inr [\<lparr>g_code = JNull, g_name = ''Unknown'', g_type = ''variable'', g_total = 9 / 2,
             g_transactions = [tag_fallback myki_tx\<lparr>reconciled := Some (JBool True)\<rparr>]\<rparr>]"
  by code_simp





section \<open>Properties of the operations on the store\<close>

lemma still_reconciled_refl: "still_reconciled t t"
  by (simp add: still_reconciled_def)

lemma list_all2_still_refl: "list_all2 still_reconciled ts ts"
  by (simp add: list_all2_conv_all_nth still_reconciled_refl)

lemma edit_fields_id: "id' (edit_fields data t) = id' t"
  by (simp add: edit_fields_def Let_def split: option.splits)

lemma edit_fields_reconciled:
  "reconciled (edit_fields data t) =
     (case obj_get data ''reconciled'' of None \<Rightarrow> reconciled t | Some v \<Rightarrow> Some v)"
  by (simp add: edit_fields_def Let_def split: option.splits)

lemma edit_fields_still:
  assumes "\<not> unreconciles (UpdateById trans_id data)"
  shows "still_reconciled t (edit_fields data t)"
  using assms
  by (auto simp: still_reconciled_def edit_fields_id edit_fields_reconciled get_truthy_def
           split: option.splits)

lemma api_transaction_loop_still:
  assumes "\<not> unreconciles (UpdateById trans_id data)"
    and "api_transaction_loop trans_id data mc ts = Inr (ts', mc')"
  shows "list_all2 still_reconciled ts ts'"
  using assms(2)
proof (induction ts arbitrary: ts')
  case Nil
  then show ?case by simp
next
  case (Cons t ts)
  show ?case
  proof (cases "id' t = trans_id")
    case True
    then have "ts' = edit_fields data t # ts"
      using Cons.prems
      by (auto simp: Let_def key_of_eq edit_fields_def split: option.splits if_splits sum.splits)
    then show ?thesis
      using edit_fields_still [OF assms(1)] list_all2_still_refl by simp
  next
    case False
    then obtain ts'' where l: "api_transaction_loop trans_id data mc ts = Inr (ts'', mc')"
      and t: "ts' = t # ts''"
      using Cons.prems by (auto split: sum.splits)
    then show ?thesis
      using Cons.IH [OF l] still_reconciled_refl by simp
  qed
qed

lemma reconcile_loop_still:
  "reconcile_loop trans_id code mc ts = Inr (ts', mc') \<Longrightarrow> list_all2 still_reconciled ts ts'"
proof (induction ts arbitrary: ts')
  case Nil
  then show ?case by simp
next
  case (Cons t ts)
  show ?case
  proof (cases "JStr (id' t) = trans_id")
    case True
    then have "ts' = t\<lparr>category_code := Some code, reconciled := Some (JBool True)\<rparr> # ts"
      using Cons.prems by (auto simp: key_of_eq split: sum.splits)
    moreover have "still_reconciled t
                     (t\<lparr>category_code := Some code, reconciled := Some (JBool True)\<rparr>)"
      by (simp add: still_reconciled_def get_truthy_def)
    ultimately show ?thesis
      using list_all2_still_refl by simp
  next
    case False
    then obtain ts'' where l: "reconcile_loop trans_id code mc ts = Inr (ts'', mc')"
      and t: "ts' = t # ts''"
      using Cons.prems by (auto split: sum.splits)
    then show ?thesis
      using Cons.IH [OF l] still_reconciled_refl by simp
  qed
qed

lemma reconcile_all_still:
  "list_all2 still_reconciled ts (map (\<lambda>t. if accepts t then accept t else t) ts)"
  by (simp add: list_all2_conv_all_nth still_reconciled_def accept_def get_truthy_def)

lemma keeps_from_list_all2:
  assumes "list_all2 still_reconciled old new" and "\<forall>f. oper \<noteq> Import f"
  shows "keeps_reconciled oper old new"
proof -
  have "length new = length old \<and> (\<forall>i<length old. still_reconciled (old ! i) (new ! i))"
    using assms(1) by (simp add: list_all2_conv_all_nth)
  then show ?thesis
    using assms(2) by (cases oper) simp_all
qed

lemma upload_csv_keeps:
  "mset (transactions_file st)
     \<subseteq># mset (transactions_file (snd (snd (upload_csv rt client categories csv_file st))))"
proof (cases csv_file)
  case None
  then show ?thesis by (simp add: upload_csv_def)
next
  case (Some f)
  obtain filename rows where f: "f = (filename, rows)" by (cases f)
  show ?thesis
  proof (cases "filename = []")
    case True
    then show ?thesis using Some f by (simp add: upload_csv_def)
  next
    case False
    have fl: "csv_file = Some (filename, rows)" using Some f by simp
    from upload_csv_cases [OF fl False, of rt client categories st]
    consider "snd (snd (upload_csv rt client categories csv_file st)) = st"
      | out where "snd (snd (upload_csv rt client categories csv_file st))
                     = st\<lparr>transactions_file := sort_by_date_desc (transactions_file st @ out)\<rparr>"
      by auto
    then show ?thesis
    proof cases
      case 1
      then show ?thesis by simp
    next
      case 2
      then show ?thesis by (simp add: mset_sort_by_date_desc)
    qed
  qed
qed

lemma api_transaction_loop_eq:
  "\<exists>mc'. api_transaction_loop trans_id data mc ts = Inr (edit_first trans_id data ts, mc')"
proof (induction ts)
  case Nil
  then show ?case by simp
next
  case (Cons t ts)
  show ?case
  proof (cases "id' t = trans_id")
    case True
    then show ?thesis
      by (simp add: Let_def key_of_eq split: option.splits)
  next
    case False
    then show ?thesis
      using Cons.IH by auto
  qed
qed

lemma length_edit_first: "length (edit_first trans_id data ts) = length ts"
  by (induction ts) auto

lemma edit_first_nth:
  "i < length ts \<Longrightarrow>
   edit_first trans_id data ts ! i =
     (if id' (ts ! i) = trans_id \<and> trans_id \<notin> set (map id' (take i ts))
      then edit_fields data (ts ! i) else ts ! i)"
proof (induction ts arbitrary: i)
  case Nil
  then show ?case by simp
next
  case (Cons t ts)
  show ?case
  proof (cases i)
    case 0
    then show ?thesis by simp
  next
    case (Suc k)
    then show ?thesis
      using Cons.prems Cons.IH [of k] by auto
  qed
qed

lemma api_transaction_eq:
  "\<exists>mc'. api_transaction trans_id data st =
           Inr \<lparr>transactions_file = edit_first trans_id data (transactions_file st),
                merchant_cache_file = mc'\<rparr>"
proof -
  obtain mc' where "api_transaction_loop trans_id data (merchant_cache_file st) (transactions_file st)
                      = Inr (edit_first trans_id data (transactions_file st), mc')"
    using api_transaction_loop_eq by blast
  then show ?thesis
    by (simp add: api_transaction_def)
qed

lemma after_operation_keeps:
  assumes "\<not> unreconciles oper"
  shows "keeps_reconciled oper (transactions_file st)
           (transactions_file (after_operation rt client categories oper st))"
proof (cases oper)
  case (UpdateById trans_id data)
  obtain ts' mc' where l: "api_transaction_loop trans_id data (merchant_cache_file st)
                             (transactions_file st) = Inr (ts', mc')"
    using api_transaction_loop_eq by blast
  have "list_all2 still_reconciled (transactions_file st) ts'"
    using assms l unfolding UpdateById by (rule api_transaction_loop_still)
  moreover have "transactions_file (after_operation rt client categories oper st) = ts'"
    by (simp add: UpdateById api_transaction_def l)
  ultimately show ?thesis
    using UpdateById by (intro keeps_from_list_all2) simp_all
next
  case (Reconcile data)
  have "list_all2 still_reconciled (transactions_file st)
          (transactions_file (after_operation rt client categories oper st))"
  proof (cases "reconcile_transaction data st")
    case (Inl e)
    then show ?thesis by (simp add: Reconcile list_all2_still_refl)
  next
    case (Inr st')
    then obtain trans_id code mc' where
      "reconcile_loop trans_id code (merchant_cache_file st) (transactions_file st)
         = Inr (transactions_file st', mc')"
      by (auto simp: reconcile_transaction_def split: option.splits if_splits sum.splits)
    then have "list_all2 still_reconciled (transactions_file st) (transactions_file st')"
      by (rule reconcile_loop_still)
    then show ?thesis by (simp add: Reconcile Inr)
  qed
  then show ?thesis
    using Reconcile by (intro keeps_from_list_all2) simp_all
next
  case ReconcileAll
  have "transactions_file (after_operation rt client categories oper st)
          = map (\<lambda>t. if accepts t then accept t else t) (transactions_file st)"
    by (simp add: ReconcileAll reconcile_all_def reconcile_all_loop_eq)
  then have "list_all2 still_reconciled (transactions_file st)
          (transactions_file (after_operation rt client categories oper st))"
    by (simp only: reconcile_all_still)
  then show ?thesis
    using ReconcileAll by (intro keeps_from_list_all2) simp_all
next
  case (Import csv_file)
  then show ?thesis
    using upload_csv_keeps [of st rt client categories csv_file] by simp
next
  case (Aggregate type_arg)
  have "list_all2 still_reconciled (transactions_file st)
          (transactions_file (after_operation rt client categories oper st))"
    by (simp add: Aggregate list_all2_still_refl)
  then show ?thesis
    using Aggregate by (intro keeps_from_list_all2) simp_all
qed

lemma after_update_by_id:
  "transactions_file (after_operation rt client categories (UpdateById trans_id data) st)
     = edit_first trans_id data (transactions_file st)"
proof -
  obtain mc' where "api_transaction trans_id data st =
           Inr \<lparr>transactions_file = edit_first trans_id data (transactions_file st),
                merchant_cache_file = mc'\<rparr>"
    using api_transaction_eq by blast
  then show ?thesis by simp
qed

text \<open>
  Claim C2 as stated fails at the update by id: the endpoint stores whatever value the
  request gives for \<open>reconciled\<close>. The stored transaction below is reconciled; the
  request \<open>{"reconciled": false}\<close> for its id leaves it unreconciled.
\<close>

theorem update_by_id_unreconciles_counterexample:
  "get_truthy (reconciled ((tag_fallback myki_tx)\<lparr>reconciled := Some (JBool True)\<rparr>))
   \<and> api_transaction ''2024-01-15_4.5_4'' [(''reconciled'', JBool False)]
       \<lparr>transactions_file = [(tag_fallback myki_tx)\<lparr>reconciled := Some (JBool True)\<rparr>],
        merchant_cache_file = []\<rparr>
     = Inr \<lparr>transactions_file = [(tag_fallback myki_tx)\<lparr>reconciled := Some (JBool False)\<rparr>],
            merchant_cache_file = []\<rparr>
   \<and> \<not> get_truthy (reconciled ((tag_fallback myki_tx)\<lparr>reconciled := Some (JBool False)\<rparr>))"
  by code_simp

text \<open>
  Claim C2, amended. A transaction is reconciled when its \<open>reconciled\<close> value is truthy
  (present and not null, \<open>False\<close>, zero, an empty string or an empty container). First
  part: every operation other than an update by id whose request carries a falsy
  \<open>reconciled\<close> keeps the reconciled transactions reconciled. After an update by id
  with no \<open>reconciled\<close> in the request or a truthy one, after a single reconcile, after
  reconcile-all and after an aggregation, every transaction is at its position with its
  id, and is reconciled if it was; after an import every stored transaction is still
  stored, exactly as it was. A request that fails saves nothing. Second part: the batch
  categorization returns every transaction of its batch with \<open>reconciled\<close> as it was.
  Third part: an update by id changes \<open>reconciled\<close> of the first transaction with that
  id only, to the value of the request when the request has one, and so a falsy value
  in the request does set a reconciled transaction back to unreconciled.
\<close>

theorem reconciled_kept_unless_update_says_otherwise:
  "(\<not> unreconciles oper \<longrightarrow>
      keeps_reconciled oper (transactions_file st)
        (transactions_file (after_operation rt client categories oper st)))
   \<and> (\<exists>calls out. categorize_transactions_batch rt client mc ts categories = Inr (calls, out)
         \<and> map reconciled out = map reconciled ts)
   \<and> length (transactions_file (after_operation rt client categories (UpdateById trans_id data) st))
       = length (transactions_file st)
   \<and> (\<forall>i<length (transactions_file st).
         reconciled (transactions_file
                       (after_operation rt client categories (UpdateById trans_id data) st) ! i) =
           (if id' (transactions_file st ! i) = trans_id
               \<and> trans_id \<notin> set (map id' (take i (transactions_file st)))
            then (case obj_get data ''reconciled'' of
                    None \<Rightarrow> reconciled (transactions_file st ! i) | Some v \<Rightarrow> Some v)
            else reconciled (transactions_file st ! i)))"
proof -
  have 1: "\<not> unreconciles oper \<longrightarrow>
      keeps_reconciled oper (transactions_file st)
        (transactions_file (after_operation rt client categories oper st))"
    using after_operation_keeps by (rule impI)
  obtain calls out where c: "categorize_transactions_batch rt client mc ts categories = Inr (calls, out)"
    using categorize_returns by blast
  then have "map reconciled out = map reconciled ts"
    by (rule categorize_reconciled)
  with c have 2: "\<exists>calls out. categorize_transactions_batch rt client mc ts categories = Inr (calls, out)
         \<and> map reconciled out = map reconciled ts"
    by blast
  have 3: "length (transactions_file (after_operation rt client categories (UpdateById trans_id data) st))
       = length (transactions_file st)"
    by (simp only: after_update_by_id length_edit_first)
  have 4: "\<forall>i<length (transactions_file st).
         reconciled (transactions_file
                       (after_operation rt client categories (UpdateById trans_id data) st) ! i) =
           (if id' (transactions_file st ! i) = trans_id
               \<and> trans_id \<notin> set (map id' (take i (transactions_file st)))
            then (case obj_get data ''reconciled'' of
                    None \<Rightarrow> reconciled (transactions_file st ! i) | Some v \<Rightarrow> Some v)
            else reconciled (transactions_file st ! i))"
    by (simp add: after_update_by_id edit_first_nth edit_fields_reconciled del: after_operation.simps)
  show ?thesis
    using 1 2 3 4 by (intro conjI)
qed

theorem reconciled_kept_unless_update_says_otherwise_witness:
  "get_truthy (reconciled ((tag_fallback myki_tx)\<lparr>reconciled := Some (JBool True)\<rparr>))
   \<and> get_truthy (reconciled (transactions_file
        (after_operation example_runtime (\<lambda>req. None) []
           (UpdateById ''2024-01-15_4.5_4'' [(''category_code'', JStr ''300'')])
           \<lparr>transactions_file = [(tag_fallback myki_tx)\<lparr>reconciled := Some (JBool True)\<rparr>],
            merchant_cache_file = []\<rparr>) ! 0))"
proof -
  let ?t = "(tag_fallback myki_tx)\<lparr>reconciled := Some (JBool True)\<rparr>"
  let ?st = "\<lparr>transactions_file = [?t], merchant_cache_file = []\<rparr>"
  let ?op = "UpdateById ''2024-01-15_4.5_4'' [(''category_code'', JStr ''300'')]"
  have h: "\<not> unreconciles ?op"
    by (simp add: obj_get_def)
  have t: "get_truthy (reconciled ?t)"
    by (simp add: get_truthy_def)
  have "keeps_reconciled ?op (transactions_file ?st)
          (transactions_file (after_operation example_runtime (\<lambda>req. None) [] ?op ?st))"
    using reconciled_kept_unless_update_says_otherwise
            [of ?op ?st example_runtime "\<lambda>req. None" "[]", THEN conjunct1] h
    by (rule mp)
  then have "still_reconciled ?t
               (transactions_file (after_operation example_runtime (\<lambda>req. None) [] ?op ?st) ! 0)"
    by (simp del: after_operation.simps)
  then have "get_truthy (reconciled
               (transactions_file (after_operation example_runtime (\<lambda>req. None) [] ?op ?st) ! 0))"
    using t by (simp only: still_reconciled_def)
  with t show ?thesis by (rule conjI)
qed

end
